theory Spec2Isabelle
  imports Complex_Main "HOL-Library.Word"
begin

unbundle bit_operations_syntax

section \<open>Bounded event buffer (\<open>EventBuffer\<close>, websocket.ts)\<close>

text \<open>
  The class keeps a JavaScript array, two cursors, a count and the capacity. A JavaScript
  array is a map from indices to values in which an index never written reads as
  \<open>undefined\<close>; the model keeps it as a function into \<open>option\<close>, with
  \<open>None\<close> for \<open>undefined\<close>. The capacity is a natural number: the constructor
  passes it to \<open>new Array\<close>, which accepts nothing else. With capacity 0 the
  source computes \<open>x % 0 = NaN\<close>, which the model does not follow; every statement
  below is about a positive capacity.
\<close>

record 'a EventBuffer =
  eb_buffer :: "nat \<Rightarrow> 'a option"
  eb_head :: nat
  eb_tail :: nat
  eb_count :: nat
  eb_maxSize :: nat

definition new_EventBuffer :: "nat \<Rightarrow> 'a EventBuffer" where
  "new_EventBuffer n =
     \<lparr>eb_buffer = (\<lambda>_. None), eb_head = 0, eb_tail = 0, eb_count = 0, eb_maxSize = n\<rparr>"

definition push :: "'a \<Rightarrow> 'a EventBuffer \<Rightarrow> 'a EventBuffer" where
  "push event b =
     (let b1 = b\<lparr>eb_buffer := (eb_buffer b)(eb_head b := Some event)\<rparr>;
          b2 = b1\<lparr>eb_head := (eb_head b1 + 1) mod eb_maxSize b1\<rparr>
      in if eb_count b2 < eb_maxSize b2
         then b2\<lparr>eb_count := eb_count b2 + 1\<rparr>
         else b2\<lparr>eb_tail := (eb_tail b2 + 1) mod eb_maxSize b2\<rparr>)"

definition pushMany :: "'a list \<Rightarrow> 'a EventBuffer \<Rightarrow> 'a EventBuffer" where
  "pushMany events b = fold push events b"

definition getAll :: "'a EventBuffer \<Rightarrow> 'a option list" where
  "getAll b =
     (if eb_count b = 0 then []
      else map (\<lambda>i. eb_buffer b ((eb_tail b + i) mod eb_maxSize b)) [0..<eb_count b])"

text \<open>The state reached after pushing \<open>xs\<close> into a fresh buffer of capacity \<open>n\<close>.\<close>

definition ring_inv :: "nat \<Rightarrow> 'a list \<Rightarrow> 'a EventBuffer \<Rightarrow> bool" where
  "ring_inv n xs b \<longleftrightarrow>
     eb_maxSize b = n \<and> eb_count b = min (length xs) n \<and> eb_head b = length xs mod n \<and>
     eb_tail b = (length xs - min (length xs) n) mod n \<and>
     (\<forall>i<length xs. length xs - n \<le> i \<longrightarrow> eb_buffer b (i mod n) = Some (xs ! i))"

section \<open>TTL cache (\<open>LRUCache\<close>, memo module)\<close>

text \<open>
  The class wraps a JavaScript \<open>Map\<close> from keys to entries. A \<open>Map\<close> iterates
  in insertion order and the eviction relies on it, so the model keeps the map as an
  association list in insertion order: \<open>delete\<close> removes the pair, \<open>set\<close>
  overwrites in place when the key is there and appends otherwise, and
  \<open>keys().next().value\<close> is the key of the first pair (\<open>undefined\<close>, here
  \<open>None\<close>, on an empty map). \<open>Date.now()\<close> is passed as the argument
  \<open>now\<close>, in integer milliseconds; \<open>maxSize\<close> and \<open>ttl\<close> are integers. The key
  and value types do not contain \<open>undefined\<close>.
\<close>

record 'v entry =
  entry_value :: 'v
  entry_expires :: int

type_synonym ('k, 'v) js_map = "('k \<times> 'v) list"

definition map_get :: "('k, 'v) js_map \<Rightarrow> 'k \<Rightarrow> 'v option" where
  "map_get m k = map_of m k"

definition map_delete :: "'k \<Rightarrow> ('k, 'v) js_map \<Rightarrow> ('k, 'v) js_map" where
  "map_delete k m = filter (\<lambda>p. fst p \<noteq> k) m"

fun map_set :: "'k \<Rightarrow> 'v \<Rightarrow> ('k, 'v) js_map \<Rightarrow> ('k, 'v) js_map" where
  "map_set k v [] = [(k, v)]"
| "map_set k v (p # ps) = (if fst p = k then (k, v) # ps else p # map_set k v ps)"

definition map_keys :: "('k, 'v) js_map \<Rightarrow> 'k list" where
  "map_keys m = map fst m"

definition map_first_key :: "('k, 'v) js_map \<Rightarrow> 'k option" where
  "map_first_key m = (case m of [] \<Rightarrow> None | p # _ \<Rightarrow> Some (fst p))"

definition map_size :: "('k, 'v) js_map \<Rightarrow> int" where
  "map_size m = int (length m)"

text \<open>A \<open>Map\<close> holds each key once.\<close>

definition map_ok :: "('k, 'v) js_map \<Rightarrow> bool" where
  "map_ok m \<longleftrightarrow> distinct (map_keys m)"

record ('k, 'v) LRUCache =
  lru_cache :: "('k, 'v entry) js_map"
  lru_maxSize :: int
  lru_ttl :: int

definition new_LRUCache :: "int \<Rightarrow> int \<Rightarrow> ('k, 'v) LRUCache" where
  "new_LRUCache maxSize ttlMs = \<lparr>lru_cache = [], lru_maxSize = maxSize, lru_ttl = ttlMs\<rparr>"


definition lru_set :: "int \<Rightarrow> 'k \<Rightarrow> 'v \<Rightarrow> ('k, 'v) LRUCache \<Rightarrow> ('k, 'v) LRUCache" where
  "lru_set now key v c =
     (let m1 = map_delete key (lru_cache c);
          m2 = (if map_size m1 \<ge> lru_maxSize c
                then (case map_first_key m1 of
                        Some firstKey \<Rightarrow> map_delete firstKey m1
                      | None \<Rightarrow> m1)
                else m1)
      in c\<lparr>lru_cache :=
             map_set key \<lparr>entry_value = v, entry_expires = now + lru_ttl c\<rparr> m2\<rparr>)"



definition lru_size :: "('k, 'v) LRUCache \<Rightarrow> int" where
  "lru_size c = map_size (lru_cache c)"

definition lru_keys :: "('k, 'v) LRUCache \<Rightarrow> 'k list" where
  "lru_keys c = map_keys (lru_cache c)"

subsection \<open>Sequences of cache operations and the touch log\<close>









section \<open>Timestamp keys (\<open>tidToDate\<close>, \<open>isTid\<close>, records module)\<close>

text \<open>
  Strings are lists of 8-bit characters, so the model covers the strings of Latin-1
  characters; \<open>toLowerCase\<close> on one such character maps \<open>A\<close>..\<open>Z\<close> and the
  upper-case letters of the upper half (codes 192 to 222 except 215) to the character
  32 places later and leaves every other character alone. \<open>indexOf\<close> answers -1 for
  a character that does not occur. A \<open>Date\<close> is its time value in milliseconds, and
  \<open>null\<close> is \<open>None\<close>. BigInt division truncates towards zero. Eleven base-32
  digits stay below \<open>2 ^ 55\<close>, so the quotient by 1000 is below \<open>2 ^ 53\<close> and
  inside the range of a \<open>Date\<close>: \<open>Number\<close> and \<open>new Date\<close> keep it as it
  is.
\<close>

definition TID_CHARS :: string where
  "TID_CHARS = ''234567abcdefghijklmnopqrstuvwxyz''"

definition toLowerCase :: "char \<Rightarrow> char" where
  "toLowerCase c =
     (let n = (of_char c :: nat)
      in if (65 \<le> n \<and> n \<le> 90) \<or> (192 \<le> n \<and> n \<le> 222 \<and> n \<noteq> 215)
         then char_of (n + 32) else c)"

fun indexOf_from :: "string \<Rightarrow> char \<Rightarrow> int \<Rightarrow> int" where
  "indexOf_from [] c i = - 1"
| "indexOf_from (x # xs) c i = (if x = c then i else indexOf_from xs c (i + 1))"

definition indexOf :: "string \<Rightarrow> char \<Rightarrow> int" where
  "indexOf s c = indexOf_from s c 0"

definition bigint_div :: "int \<Rightarrow> int \<Rightarrow> int" where
  "bigint_div a b = sgn a * sgn b * (\<bar>a\<bar> div \<bar>b\<bar>)"

fun tid_loop :: "string \<Rightarrow> int \<Rightarrow> int option" where
  "tid_loop [] timestamp = Some timestamp"
| "tid_loop (char # rest) timestamp =
     (let index = indexOf TID_CHARS (toLowerCase char)
      in if index = - 1 then None else tid_loop rest (timestamp * 32 + index))"

definition tidToDate :: "string \<Rightarrow> int option" where
  "tidToDate tid =
     (if tid = [] \<or> length tid \<noteq> 13 then None
      else case tid_loop (take 11 tid) 0 of
             None \<Rightarrow> None
           | Some timestamp \<Rightarrow> Some (bigint_div timestamp 1000))"

definition isTid :: "string \<Rightarrow> bool" where
  "isTid str =
     (if length str \<noteq> 13 then False
      else list_all (\<lambda>c. toLowerCase c \<in> set TID_CHARS) str)"

text \<open>
  A valid timestamp key has 13 characters of the alphabet. Its first 11 characters are
  compared digit by digit, a digit being the position of the character in the alphabet.
\<close>

definition valid_tid :: "string \<Rightarrow> bool" where
  "valid_tid s \<longleftrightarrow> length s = 13 \<and> list_all (\<lambda>c. c \<in> set TID_CHARS) s"

definition tid_digits :: "string \<Rightarrow> int list" where
  "tid_digits s = map (indexOf TID_CHARS) (take 11 s)"

fun lex_le :: "int list \<Rightarrow> int list \<Rightarrow> bool" where
  "lex_le [] ys = True"
| "lex_le (x # xs) [] = False"
| "lex_le (x # xs) (y # ys) = (x < y \<or> (x = y \<and> lex_le xs ys))"

fun base32_value :: "int list \<Rightarrow> int" where
  "base32_value [] = 0"
| "base32_value (d # ds) = d * 32 ^ length ds + base32_value ds"

section \<open>JavaScript values read from JSON\<close>

text \<open>
  The values that \<open>JSON.parse\<close> returns: \<open>null\<close>, booleans, numbers, strings,
  arrays and objects. A number is the real number that the double stands for. An object
  is the list of its properties, each name once. Reading a property of \<open>null\<close>
  throws a \<open>TypeError\<close>; reading a property that is not there gives
  \<open>undefined\<close>, written \<open>None\<close>. The property names read by the code below
  (\<open>did\<close>, \<open>time_us\<close>, \<open>kind\<close>, \<open>$type\<close>, \<open>ref\<close>, \<open>uri\<close>,
  \<open>cid\<close>) are not properties of arrays, strings, numbers or booleans, so on those
  they read as \<open>undefined\<close>. Calling a string method on a value that is not a
  string throws a \<open>TypeError\<close>. \<open>Error msg\<close> is the error made by
  \<open>new Error(msg)\<close>.
\<close>

datatype json =
  JNull
| JBool bool
| JNum real
| JStr string
| JArr "json list"
| JObj "(string \<times> json) list"

datatype js_error = TypeError | SyntaxError | Error string

datatype js_type = TObject | TBoolean | TNumber | TString | TUndefined

fun typeof :: "json option \<Rightarrow> js_type" where
  "typeof None = TUndefined"
| "typeof (Some JNull) = TObject"
| "typeof (Some (JBool b)) = TBoolean"
| "typeof (Some (JNum n)) = TNumber"
| "typeof (Some (JStr s)) = TString"
| "typeof (Some (JArr xs)) = TObject"
| "typeof (Some (JObj ps)) = TObject"

fun truthy :: "json option \<Rightarrow> bool" where
  "truthy None = False"
| "truthy (Some JNull) = False"
| "truthy (Some (JBool b)) = b"
| "truthy (Some (JNum n)) = (n \<noteq> 0)"
| "truthy (Some (JStr s)) = (s \<noteq> [])"
| "truthy (Some (JArr xs)) = True"
| "truthy (Some (JObj ps)) = True"

fun get_prop :: "json option \<Rightarrow> string \<Rightarrow> js_error + json option" where
  "get_prop None name = Inl TypeError"
| "get_prop (Some JNull) name = Inl TypeError"
| "get_prop (Some (JObj ps)) name = Inr (map_of ps name)"
| "get_prop (Some v) name = Inr None"

fun startsWith :: "json option \<Rightarrow> string \<Rightarrow> js_error + bool" where
  "startsWith (Some (JStr s)) p = Inr (take (length p) s = p)"
| "startsWith v p = Inl TypeError"

section \<open>JSON event stream (\<open>parseJetstreamEvent\<close>, jetstream module)\<close>

text \<open>
  \<open>JSON.parse\<close> belongs to the host. The model receives its outcome: \<open>Inl\<close> of
  the error when the text is not valid JSON and \<open>JSON.parse\<close> throws, \<open>Inr\<close> of
  the value otherwise. \<open>validate_event\<close> is the body of the \<open>try\<close> block after
  the parse, with the three tests of the \<open>if\<close> from left to right;
  \<open>parseJetstreamEvent\<close> adds the \<open>catch\<close>, which turns every error into
  \<open>null\<close> (\<open>None\<close>).
\<close>

definition validate_event :: "json \<Rightarrow> js_error + json option" where
  "validate_event event =
     (case get_prop (Some event) ''did'' of
        Inl e \<Rightarrow> Inl e
      | Inr did \<Rightarrow>
          if \<not> truthy did then Inr None
          else case get_prop (Some event) ''time_us'' of
            Inl e \<Rightarrow> Inl e
          | Inr time_us \<Rightarrow>
              if \<not> truthy time_us then Inr None
              else case get_prop (Some event) ''kind'' of
                Inl e \<Rightarrow> Inl e
              | Inr kind \<Rightarrow> if \<not> truthy kind then Inr None else Inr (Some event))"

definition parseJetstreamEvent :: "js_error + json \<Rightarrow> json option" where
  "parseJetstreamEvent parsed =
     (case parsed of
        Inl e \<Rightarrow> None
      | Inr event \<Rightarrow>
          (case validate_event event of Inl e \<Rightarrow> None | Inr result \<Rightarrow> result))"

text \<open>
  A field of a parsed value, for stating what is present: \<open>None\<close> when the value
  has no such property, which includes every value that is not an object.
\<close>

fun field :: "json \<Rightarrow> string \<Rightarrow> json option" where
  "field (JObj ps) name = map_of ps name"
| "field v name = None"

section \<open>Value classification (\<open>detectEncoding\<close>, decode module)\<close>

text \<open>
  Each test takes a value of unknown type and so returns either an error or a boolean;
  \<open>err_bind\<close> passes the first error on, as a thrown exception would leave the
  function. A test of \<open>&&\<close> or \<open>||\<close> evaluates its right side only when the left
  side does not decide, which the nested \<open>if\<close> of the model follows. The regular
  expressions are written out as functions on strings. A JSON value is never an
  instance of \<open>Uint8Array\<close>.
\<close>

datatype EncodingType =
  AtUri | Did | Cid | BlobRef | StrongRef | Tid | Datetime | Base64 | Bytes | Unknown

definition err_bind :: "'e + 'a \<Rightarrow> ('a \<Rightarrow> 'e + 'b) \<Rightarrow> 'e + 'b" where
  "err_bind m f = (case m of Inl e \<Rightarrow> Inl e | Inr x \<Rightarrow> f x)"

definition char_between :: "char \<Rightarrow> char \<Rightarrow> char \<Rightarrow> bool" where
  "char_between lo hi c \<longleftrightarrow> (of_char lo :: nat) \<le> of_char c \<and> (of_char c :: nat) \<le> of_char hi"

definition ascii_upper :: "char \<Rightarrow> char" where
  "ascii_upper c = (if char_between CHR ''a'' CHR ''z'' c then char_of ((of_char c :: nat) - 32) else c)"

definition ascii_lower :: "char \<Rightarrow> char" where
  "ascii_lower c = (if char_between CHR ''A'' CHR ''Z'' c then char_of ((of_char c :: nat) + 32) else c)"

text \<open>
  Under the flag \<open>i\<close> a character matches a class when the class holds the
  character, its upper-case form or its lower-case form. The classes and literals below
  are ASCII, and a character above 127 never folds to an ASCII character.
\<close>

definition ci :: "(char \<Rightarrow> bool) \<Rightarrow> char \<Rightarrow> bool" where
  "ci P c \<longleftrightarrow> P c \<or> P (ascii_upper c) \<or> P (ascii_lower c)"

fun match_prefix :: "(char \<Rightarrow> bool) list \<Rightarrow> string \<Rightarrow> bool" where
  "match_prefix [] s = True"
| "match_prefix (p # ps) [] = False"
| "match_prefix (p # ps) (c # cs) = (p c \<and> match_prefix ps cs)"

definition digit :: "char \<Rightarrow> bool" where
  "digit c = char_between CHR ''0'' CHR ''9'' c"

text \<open>\<open>[1-9A-HJ-NP-Za-km-z]\<close>, \<open>[a-z2-7]\<close> and \<open>[A-Za-z0-9+/]\<close>.\<close>

definition base58_char :: "char \<Rightarrow> bool" where
  "base58_char c \<longleftrightarrow>
     char_between CHR ''1'' CHR ''9'' c \<or> char_between CHR ''A'' CHR ''H'' c \<or>
     char_between CHR ''J'' CHR ''N'' c \<or> char_between CHR ''P'' CHR ''Z'' c \<or>
     char_between CHR ''a'' CHR ''k'' c \<or> char_between CHR ''m'' CHR ''z'' c"

definition base32_char :: "char \<Rightarrow> bool" where
  "base32_char c \<longleftrightarrow> char_between CHR ''a'' CHR ''z'' c \<or> char_between CHR ''2'' CHR ''7'' c"

definition base64_char :: "char \<Rightarrow> bool" where
  "base64_char c \<longleftrightarrow>
     char_between CHR ''A'' CHR ''Z'' c \<or> char_between CHR ''a'' CHR ''z'' c \<or>
     char_between CHR ''0'' CHR ''9'' c \<or> c = CHR ''+'' \<or> c = CHR ''/''"

text \<open>\<open>/^(Qm[1-9A-HJ-NP-Za-km-z]{44}|b[a-z2-7]{58,}|bafy[a-z2-7]+)$/i\<close>\<close>

definition cid_regex :: "string \<Rightarrow> bool" where
  "cid_regex s \<longleftrightarrow>
     (length s = 46 \<and>
        match_prefix ([ci (\<lambda>c. c = CHR ''Q''), ci (\<lambda>c. c = CHR ''m'')]
                      @ replicate 44 (ci base58_char)) s)
     \<or> (match_prefix [ci (\<lambda>c. c = CHR ''b'')] s \<and> 58 \<le> length (drop 1 s)
          \<and> list_all (ci base32_char) (drop 1 s))
     \<or> (match_prefix [ci (\<lambda>c. c = CHR ''b''), ci (\<lambda>c. c = CHR ''a''),
                       ci (\<lambda>c. c = CHR ''f''), ci (\<lambda>c. c = CHR ''y'')] s
          \<and> 1 \<le> length (drop 4 s) \<and> list_all (ci base32_char) (drop 4 s))"

text \<open>\<open>/^\d{4}-\d{2}-\d{2}T\d{2}:\d{2}:\d{2}/\<close>\<close>

definition datetime_regex :: "string \<Rightarrow> bool" where
  "datetime_regex s =
     match_prefix
       [digit, digit, digit, digit, (\<lambda>c. c = CHR ''-''), digit, digit, (\<lambda>c. c = CHR ''-''),
        digit, digit, (\<lambda>c. c = CHR ''T''), digit, digit, (\<lambda>c. c = CHR '':''),
        digit, digit, (\<lambda>c. c = CHR '':''), digit, digit] s"

text \<open>\<open>/^[A-Za-z0-9+/]+=*$/\<close>\<close>

definition base64_regex :: "string \<Rightarrow> bool" where
  "base64_regex s \<longleftrightarrow>
     takeWhile base64_char s \<noteq> [] \<and> list_all (\<lambda>c. c = CHR ''='') (dropWhile base64_char s)"

definition isAtUri :: "json \<Rightarrow> js_error + bool" where
  "isAtUri v =
     (if typeof (Some v) = TString then startsWith (Some v) ''at://'' else Inr False)"

definition isDid :: "json \<Rightarrow> js_error + bool" where
  "isDid v =
     (if typeof (Some v) = TString then startsWith (Some v) ''did:'' else Inr False)"

definition isCid :: "json \<Rightarrow> js_error + bool" where
  "isCid v = (case v of JStr s \<Rightarrow> Inr (cid_regex s) | _ \<Rightarrow> Inr False)"

definition isBlobRef :: "json \<Rightarrow> js_error + bool" where
  "isBlobRef v =
     (if \<not> truthy (Some v) \<or> typeof (Some v) \<noteq> TObject then Inr False
      else err_bind (get_prop (Some v) ''$type'') (\<lambda>ty.
        if ty \<noteq> Some (JStr ''blob'') then Inr False
        else err_bind (get_prop (Some v) ''ref'') (\<lambda>r.
          if \<not> truthy r then Inr False
          else err_bind (get_prop (Some v) ''ref'') (\<lambda>r'. Inr (typeof r' = TObject)))))"

definition isStrongRef :: "json \<Rightarrow> js_error + bool" where
  "isStrongRef v =
     (if \<not> truthy (Some v) \<or> typeof (Some v) \<noteq> TObject then Inr False
      else err_bind (get_prop (Some v) ''uri'') (\<lambda>u.
        if typeof u \<noteq> TString then Inr False
        else err_bind (get_prop (Some v) ''uri'') (\<lambda>u'.
          err_bind (startsWith u' ''at://'') (\<lambda>b.
            if \<not> b then Inr False
            else err_bind (get_prop (Some v) ''cid'') (\<lambda>c. Inr (typeof c = TString))))))"

definition isDatetime :: "json \<Rightarrow> js_error + bool" where
  "isDatetime v = (case v of JStr s \<Rightarrow> Inr (datetime_regex s) | _ \<Rightarrow> Inr False)"

definition isBase64 :: "json \<Rightarrow> js_error + bool" where
  "isBase64 v =
     (case v of
        JStr s \<Rightarrow>
          if length s < 20 then Inr False
          else Inr (base64_regex s \<and> length s mod 4 = 0)
      | _ \<Rightarrow> Inr False)"

definition isBytes :: "json \<Rightarrow> js_error + bool" where
  "isBytes v =
     (case v of
        JArr xs \<Rightarrow>
          Inr (list_all (\<lambda>x. case x of JNum n \<Rightarrow> 0 \<le> n \<and> n \<le> 255 | _ \<Rightarrow> False) xs)
      | _ \<Rightarrow> Inr False)"

definition detectEncoding :: "json \<Rightarrow> js_error + EncodingType" where
  "detectEncoding v =
     err_bind (isAtUri v) (\<lambda>b. if b then Inr AtUri else
     err_bind (isDid v) (\<lambda>b. if b then Inr Did else
     err_bind (isBlobRef v) (\<lambda>b. if b then Inr BlobRef else
     err_bind (isStrongRef v) (\<lambda>b. if b then Inr StrongRef else
     if (case v of JStr s \<Rightarrow> isTid s | _ \<Rightarrow> False) then Inr Tid else
     err_bind (isDatetime v) (\<lambda>b. if b then Inr Datetime else
     err_bind (isCid v) (\<lambda>b. if b then Inr Cid else
     err_bind (isBase64 v) (\<lambda>b. if b then Inr Base64 else
     err_bind (isBytes v) (\<lambda>b. if b then Inr Bytes else
     Inr Unknown))))))))"

section \<open>Request coalescing (\<open>memoizeAsync\<close>, memo module)\<close>












section \<open>Binary relay frames (\<open>findCborBoundary\<close>, \<open>decodeFirehoseFrame\<close>, firehose module)\<close>

subsection \<open>JavaScript numbers and 32-bit operators\<close>

text \<open>
  The cursor \<open>pos\<close> is a JavaScript number that only ever holds integers, so it is an
  \<open>int\<close> here, and every addition rounds its exact result to the nearest double
  (ties to even), as \<open>Number\<close> does to a BigInt. Below \<open>2 ^ 53\<close> in absolute
  value nothing is rounded. The operators \<open><<\<close>, \<open>>>\<close>, \<open>|\<close> and
  \<open>&\<close> convert their operands to signed 32-bit integers first, \<open>undefined\<close>
  becoming 0, and \<open><<\<close> wraps its result to 32 bits again. BigInt arithmetic is
  exact, and \<open>BigInt(undefined)\<close> throws a \<open>TypeError\<close>.
\<close>

fun bitlen :: "nat \<Rightarrow> nat" where
  "bitlen 0 = 0"
| "bitlen (Suc n) = Suc (bitlen (Suc n div 2))"

definition round_double :: "int \<Rightarrow> int" where
  "round_double x =
     (let a = nat \<bar>x\<bar>;
          e = bitlen a - 53;
          q = a div 2 ^ e;
          r = a mod 2 ^ e;
          q' = (if 2 * r > 2 ^ e \<or> (2 * r = 2 ^ e \<and> odd q) then q + 1 else q)
      in sgn x * int (q' * 2 ^ e))"

definition js_add :: "int \<Rightarrow> int \<Rightarrow> int" where
  "js_add a b = round_double (a + b)"

definition Number_of_BigInt :: "int \<Rightarrow> int" where
  "Number_of_BigInt n = round_double n"

definition ToInt32 :: "int \<Rightarrow> int" where
  "ToInt32 x = (x + 2 ^ 31) mod 2 ^ 32 - 2 ^ 31"

definition num_or_undefined :: "int option \<Rightarrow> int" where
  "num_or_undefined v = (case v of None \<Rightarrow> 0 | Some x \<Rightarrow> ToInt32 x)"

definition js_shl :: "int option \<Rightarrow> nat \<Rightarrow> int" where
  "js_shl a k = ToInt32 (num_or_undefined a * 2 ^ k)"

definition js_shr :: "int option \<Rightarrow> nat \<Rightarrow> int" where
  "js_shr a k = num_or_undefined a div 2 ^ k"

definition js_or :: "int option \<Rightarrow> int option \<Rightarrow> int" where
  "js_or a b = num_or_undefined a OR num_or_undefined b"

definition js_and :: "int option \<Rightarrow> int option \<Rightarrow> int" where
  "js_and a b = num_or_undefined a AND num_or_undefined b"

subsection \<open>Typed arrays\<close>

text \<open>
  A \<open>Uint8Array\<close> is a list of bytes. Reading an index outside the array gives
  \<open>undefined\<close>. \<open>slice\<close> counts a negative index from the end and clamps both
  indices to the array.
\<close>

type_synonym byte = "8 word"

definition byte_at :: "byte list \<Rightarrow> int \<Rightarrow> int option" where
  "byte_at bytes i =
     (if 0 \<le> i \<and> i < int (length bytes) then Some (uint (bytes ! nat i)) else None)"

definition clamp_index :: "int \<Rightarrow> int \<Rightarrow> int" where
  "clamp_index len i = (if i < 0 then max (len + i) 0 else min i len)"

definition js_slice :: "byte list \<Rightarrow> int \<Rightarrow> int \<Rightarrow> byte list" where
  "js_slice bytes start end =
     (let len = int (length bytes);
          k = clamp_index len start;
          final = clamp_index len end
      in take (nat (final - k)) (drop (nat k) bytes))"

definition js_slice_from :: "byte list \<Rightarrow> int \<Rightarrow> byte list" where
  "js_slice_from bytes start = js_slice bytes start (int (length bytes))"

subsection \<open>The boundary scan\<close>

text \<open>
  \<open>readValue\<close> is a closure over the cursor; the model passes the cursor in and
  returns the new one. \<open>read_head\<close> is the first half of \<open>readValue\<close>: it reads
  the initial byte and the argument, and reports an indefinite length. The loops of the
  second half are functions of their own. Nothing in the source bounds the number of
  steps, so every function takes fuel, one unit for each call of \<open>readValue\<close> and
  each turn of a loop, and answers \<open>OutOfFuel\<close> when it runs out: a scan that
  answers \<open>OutOfFuel\<close> for every amount of fuel is a scan that never returns.
  The model does not bound the depth of the recursion, which an engine's call stack
  does: where the calls of \<open>readValue\<close> nest deeper than the stack allows, the code
  throws \<open>RangeError\<close>, which \<open>decodeFirehoseFrame\<close> catches, and the model
  goes on. So \<open>OutOfFuel\<close> for every amount of fuel means a scan that never returns
  only where the nesting stays bounded, as in a loop that reads the same item again and
  again at one depth.
\<close>

datatype scan = OutOfFuel | Thrown js_error | Pos int

datatype head = HeadThrown js_error | HeadIndefinite int int | HeadArg int int int

fun read_uint64 :: "nat \<Rightarrow> byte list \<Rightarrow> int \<Rightarrow> int \<Rightarrow> js_error + int \<times> int" where
  "read_uint64 0 bytes argValue pos = Inr (argValue, pos)"
| "read_uint64 (Suc k) bytes argValue pos =
     (case byte_at bytes pos of
        None \<Rightarrow> Inl TypeError
      | Some b \<Rightarrow> read_uint64 k bytes (push_bit 8 argValue OR b) (js_add pos 1))"

definition read_head :: "byte list \<Rightarrow> int \<Rightarrow> head" where
  "read_head bytes pos0 =
     (let initial = byte_at bytes pos0;
          pos = js_add pos0 1;
          majorType = js_shr initial 5;
          additionalInfo = js_and initial (Some 31)
      in if additionalInfo < 24 then HeadArg majorType additionalInfo pos
         else if additionalInfo = 24 then
           (case byte_at bytes pos of
              None \<Rightarrow> HeadThrown TypeError
            | Some b \<Rightarrow> HeadArg majorType b (js_add pos 1))
         else if additionalInfo = 25 then
           HeadArg majorType
             (js_or (Some (js_shl (byte_at bytes pos) 8)) (byte_at bytes (js_add pos 1)))
             (js_add pos 2)
         else if additionalInfo = 26 then
           HeadArg majorType
             (js_or (Some (js_or (Some (js_or (Some (js_shl (byte_at bytes pos) 24))
                                              (Some (js_shl (byte_at bytes (js_add pos 1)) 16))))
                                 (Some (js_shl (byte_at bytes (js_add pos 2)) 8))))
                    (byte_at bytes (js_add pos 3)))
             (js_add pos 4)
         else if additionalInfo = 27 then
           (case read_uint64 8 bytes 0 pos of
              Inl e \<Rightarrow> HeadThrown e
            | Inr (argValue, pos') \<Rightarrow> HeadArg majorType argValue pos')
         else if additionalInfo = 31 then HeadIndefinite majorType pos
         else HeadArg majorType 0 pos)"

definition skip_break :: "scan \<Rightarrow> scan" where
  "skip_break r = (case r of Pos p \<Rightarrow> Pos (js_add p 1) | _ \<Rightarrow> r)"

function readValue :: "nat \<Rightarrow> byte list \<Rightarrow> int \<Rightarrow> scan"
  and until_break :: "nat \<Rightarrow> byte list \<Rightarrow> int \<Rightarrow> scan"
  and pairs_until_break :: "nat \<Rightarrow> byte list \<Rightarrow> int \<Rightarrow> scan"
  and read_items :: "nat \<Rightarrow> byte list \<Rightarrow> int \<Rightarrow> int \<Rightarrow> int \<Rightarrow> scan"
  and read_pairs :: "nat \<Rightarrow> byte list \<Rightarrow> int \<Rightarrow> int \<Rightarrow> int \<Rightarrow> scan"
where
  "readValue 0 bytes pos = OutOfFuel"
| "readValue (Suc n) bytes pos =
     (if pos \<ge> int (length bytes) then Thrown (Error ''Unexpected end'')
      else case read_head bytes pos of
        HeadThrown e \<Rightarrow> Thrown e
      | HeadIndefinite majorType p \<Rightarrow>
          if majorType = 2 \<or> majorType = 3 then skip_break (until_break n bytes p)
          else if majorType = 4 then skip_break (until_break n bytes p)
          else if majorType = 5 then skip_break (pairs_until_break n bytes p)
          else Pos p
      | HeadArg majorType argValue p \<Rightarrow>
          if majorType = 0 \<or> majorType = 1 \<or> majorType = 7 then Pos p
          else if majorType = 2 \<or> majorType = 3 then Pos (js_add p (Number_of_BigInt argValue))
          else if majorType = 4 then read_items n bytes 0 argValue p
          else if majorType = 5 then read_pairs n bytes 0 argValue p
          else if majorType = 6 then readValue n bytes p
          else Pos p)"
| "until_break 0 bytes pos = OutOfFuel"
| "until_break (Suc n) bytes pos =
     (if byte_at bytes pos \<noteq> Some 255
      then (case readValue n bytes pos of Pos p \<Rightarrow> until_break n bytes p | r \<Rightarrow> r)
      else Pos pos)"
| "pairs_until_break 0 bytes pos = OutOfFuel"
| "pairs_until_break (Suc n) bytes pos =
     (if byte_at bytes pos \<noteq> Some 255
      then (case readValue n bytes pos of
              Pos p \<Rightarrow>
                (case readValue n bytes p of
                   Pos p' \<Rightarrow> pairs_until_break n bytes p'
                 | r \<Rightarrow> r)
            | r \<Rightarrow> r)
      else Pos pos)"
| "read_items 0 bytes i argValue pos = OutOfFuel"
| "read_items (Suc n) bytes i argValue pos =
     (if i < argValue
      then (case readValue n bytes pos of
              Pos p \<Rightarrow> read_items n bytes (i + 1) argValue p
            | r \<Rightarrow> r)
      else Pos pos)"
| "read_pairs 0 bytes i argValue pos = OutOfFuel"
| "read_pairs (Suc n) bytes i argValue pos =
     (if i < argValue
      then (case readValue n bytes pos of
              Pos p \<Rightarrow>
                (case readValue n bytes p of
                   Pos p' \<Rightarrow> read_pairs n bytes (i + 1) argValue p'
                 | r \<Rightarrow> r)
            | r \<Rightarrow> r)
      else Pos pos)"
  by pat_completeness auto

termination
  by (relation "measure (\<lambda>x. case x of
        Inl (Inl (n, _)) \<Rightarrow> n
      | Inl (Inr (n, _)) \<Rightarrow> n
      | Inr (Inl (n, _)) \<Rightarrow> n
      | Inr (Inr (Inl (n, _))) \<Rightarrow> n
      | Inr (Inr (Inr (n, _))) \<Rightarrow> n)") auto

definition findCborBoundary :: "nat \<Rightarrow> byte list \<Rightarrow> scan" where
  "findCborBoundary fuel bytes = readValue fuel bytes 0"

subsection \<open>Decoding a frame\<close>

text \<open>
  \<open>decode\<close> is the decoder of the CBOR library, which decodes one value and throws on
  anything else; the model takes it as the argument \<open>decode\<close>, and with it
  \<open>header_op\<close>, which gives \<open>header.op\<close> when the decoded header is truthy and
  its \<open>op\<close> is a number, and \<open>header_t\<close>, which gives \<open>header.t\<close>. The library
  is taken as loaded. The result is \<open>None\<close> when the scan does not return,
  \<open>Some None\<close> for \<open>null\<close>, and \<open>Some (Some frame)\<close> for a frame.
\<close>

record ('n, 't, 'v) FirehoseFrame =
  frame_op :: 'n
  frame_t :: 't
  frame_body :: 'v

definition decode_parts ::
  "(byte list \<Rightarrow> js_error + 'v) \<Rightarrow> ('v \<Rightarrow> 'n option) \<Rightarrow> ('v \<Rightarrow> 't) \<Rightarrow>
   byte list \<Rightarrow> byte list \<Rightarrow> ('n, 't, 'v) FirehoseFrame option" where
  "decode_parts decode header_op header_t headerBytes bodyBytes =
     (case decode headerBytes of
        Inl e \<Rightarrow> None
      | Inr header \<Rightarrow>
          (case header_op header of
             None \<Rightarrow> None
           | Some op \<Rightarrow>
               (case decode bodyBytes of
                  Inl e \<Rightarrow> None
                | Inr body \<Rightarrow>
                    Some \<lparr>frame_op = op, frame_t = header_t header, frame_body = body\<rparr>)))"

definition decodeFirehoseFrame ::
  "nat \<Rightarrow> (byte list \<Rightarrow> js_error + 'v) \<Rightarrow> ('v \<Rightarrow> 'n option) \<Rightarrow> ('v \<Rightarrow> 't) \<Rightarrow>
   byte list \<Rightarrow> ('n, 't, 'v) FirehoseFrame option option" where
  "decodeFirehoseFrame fuel decode header_op header_t bytes =
     (case findCborBoundary fuel bytes of
        OutOfFuel \<Rightarrow> None
      | Thrown e \<Rightarrow> Some None
      | Pos boundary \<Rightarrow>
          Some (decode_parts decode header_op header_t
                  (js_slice bytes 0 boundary) (js_slice_from bytes boundary)))"

text \<open>
  The frame \<open>9f 5a ff ff ff fb\<close>: an array of indefinite length whose first item is
  a byte string with the four-byte length \<open>ff ff ff fb\<close>. The shifts make the length
  the 32-bit integer \<open>-5\<close>, so reading the item moves the cursor from 1 to 6 and
  then back to 1.
\<close>

definition hanging_frame :: "byte list" where
  "hanging_frame = [0x9f, 0x5a, 0xff, 0xff, 0xff, 0xfb]"

subsection \<open>Well-formed CBOR data items and their encoding\<close>

text \<open>
  The data items of RFC 8949 as they are written on the wire. The argument of a head is
  written in one of five forms: inside the initial byte (values below 24), or in the 1,
  2, 4 or 8 bytes that follow, big-endian; a data item records the form its encoder
  chose, so that every well-formed encoding is the encoding of some item, preferred or
  not. Strings, arrays and maps come with a definite length or, ended by the break byte
  \<open>ff\<close>, with an indefinite one; the chunks of a string of indefinite length are
  definite strings of the same major type. Major type 7 holds the simple values and,
  in the 2-, 4- and 8-byte forms, the bits of a float.
\<close>

datatype arg_form = Direct | OneByte | TwoBytes | FourBytes | EightBytes

fun arg_fits :: "arg_form \<Rightarrow> nat \<Rightarrow> bool" where
  "arg_fits Direct n = (n < 24)"
| "arg_fits OneByte n = (n < 2 ^ 8)"
| "arg_fits TwoBytes n = (n < 2 ^ 16)"
| "arg_fits FourBytes n = (n < 2 ^ 32)"
| "arg_fits EightBytes n = (n < 2 ^ 64)"

fun be_bytes :: "nat \<Rightarrow> nat \<Rightarrow> byte list" where
  "be_bytes 0 n = []"
| "be_bytes (Suc k) n = of_nat (n div 256 ^ k) # be_bytes k n"

fun head_bytes :: "nat \<Rightarrow> arg_form \<Rightarrow> nat \<Rightarrow> byte list" where
  "head_bytes mt Direct n = [of_nat (mt * 32 + n)]"
| "head_bytes mt OneByte n = of_nat (mt * 32 + 24) # be_bytes 1 n"
| "head_bytes mt TwoBytes n = of_nat (mt * 32 + 25) # be_bytes 2 n"
| "head_bytes mt FourBytes n = of_nat (mt * 32 + 26) # be_bytes 4 n"
| "head_bytes mt EightBytes n = of_nat (mt * 32 + 27) # be_bytes 8 n"

datatype cbor =
  CUInt arg_form nat
| CNInt arg_form nat
| CBytes arg_form "byte list"
| CText arg_form "byte list"
| CBytesIndef "(arg_form \<times> byte list) list"
| CTextIndef "(arg_form \<times> byte list) list"
| CArray arg_form "cbor list"
| CArrayIndef "cbor list"
| CMap arg_form "(cbor \<times> cbor) list"
| CMapIndef "(cbor \<times> cbor) list"
| CTag arg_form nat cbor
| CSimple arg_form nat

fun encode :: "cbor \<Rightarrow> byte list" where
  "encode (CUInt f n) = head_bytes 0 f n"
| "encode (CNInt f n) = head_bytes 1 f n"
| "encode (CBytes f bs) = head_bytes 2 f (length bs) @ bs"
| "encode (CText f bs) = head_bytes 3 f (length bs) @ bs"
| "encode (CBytesIndef chunks) =
     0x5f # concat (map (\<lambda>(f, bs). head_bytes 2 f (length bs) @ bs) chunks) @ [0xff]"
| "encode (CTextIndef chunks) =
     0x7f # concat (map (\<lambda>(f, bs). head_bytes 3 f (length bs) @ bs) chunks) @ [0xff]"
| "encode (CArray f xs) = head_bytes 4 f (length xs) @ concat (map encode xs)"
| "encode (CArrayIndef xs) = 0x9f # concat (map encode xs) @ [0xff]"
| "encode (CMap f kvs) =
     head_bytes 5 f (length kvs) @ concat (map (\<lambda>(k, v). encode k @ encode v) kvs)"
| "encode (CMapIndef kvs) =
     0xbf # concat (map (\<lambda>(k, v). encode k @ encode v) kvs) @ [0xff]"
| "encode (CTag f t x) = head_bytes 6 f t @ encode x"
| "encode (CSimple f n) = head_bytes 7 f n"

fun well_formed :: "cbor \<Rightarrow> bool" where
  "well_formed (CUInt f n) = arg_fits f n"
| "well_formed (CNInt f n) = arg_fits f n"
| "well_formed (CBytes f bs) = arg_fits f (length bs)"
| "well_formed (CText f bs) = arg_fits f (length bs)"
| "well_formed (CBytesIndef chunks) = list_all (\<lambda>(f, bs). arg_fits f (length bs)) chunks"
| "well_formed (CTextIndef chunks) = list_all (\<lambda>(f, bs). arg_fits f (length bs)) chunks"
| "well_formed (CArray f xs) = (arg_fits f (length xs) \<and> list_all well_formed xs)"
| "well_formed (CArrayIndef xs) = list_all well_formed xs"
| "well_formed (CMap f kvs) =
     (arg_fits f (length kvs) \<and> list_all (\<lambda>(k, v). well_formed k \<and> well_formed v) kvs)"
| "well_formed (CMapIndef kvs) = list_all (\<lambda>(k, v). well_formed k \<and> well_formed v) kvs"
| "well_formed (CTag f t x) = (arg_fits f t \<and> well_formed x)"
| "well_formed (CSimple f n) = (arg_fits f n \<and> (if f = OneByte then 32 \<le> n else True))"

text \<open>
  A header that is well-formed CBOR and longer than 2 GiB: a byte string of
  \<open>2 ^ 31\<close> zero bytes, its length written in four bytes as \<open>80 00 00 00\<close>.
\<close>

definition long_header :: cbor where
  "long_header = CBytes FourBytes (replicate 2147483648 0)"

text \<open>
  \<open>shift_head\<close> moves the cursor of a head by an offset. \<open>scans seg\<close> says
  that \<open>seg\<close> is one item for the scan: it does not begin with the break byte, and
  \<open>readValue\<close>, started on its first byte wherever it lies in an array, given fuel
  of three times its length and an end below \<open>2 ^ 31\<close>, returns the position
  just after it.
\<close>

definition shift_head :: "int \<Rightarrow> head \<Rightarrow> head" where
  "shift_head p h =
     (case h of
        HeadThrown e \<Rightarrow> HeadThrown e
      | HeadIndefinite mt q \<Rightarrow> HeadIndefinite mt (p + q)
      | HeadArg mt a q \<Rightarrow> HeadArg mt a (p + q))"

definition scans :: "byte list \<Rightarrow> bool" where
  "scans seg \<longleftrightarrow>
     seg \<noteq> [] \<and> hd seg \<noteq> 255 \<and>
     (\<forall>pre rest fuel.
        3 * length seg \<le> fuel \<longrightarrow> int (length pre) + int (length seg) < 2 ^ 31 \<longrightarrow>
        readValue fuel (pre @ seg @ rest) (int (length pre)) =
          Pos (int (length pre) + int (length seg)))"


text \<open>
  The header \<open>{op: 1, t: "#commit"}\<close> of a commit frame, in the preferred
  encoding.
\<close>

definition commit_header :: cbor where
  "commit_header =
     CMap Direct
       [(CText Direct [0x6f, 0x70], CUInt Direct 1),
        (CText Direct [0x74], CText Direct [0x23, 0x63, 0x6f, 0x6d, 0x6d, 0x69, 0x74])]"

subsection \<open>The event buffer keeps the last pushes\<close>

lemma ring_inv_new: "ring_inv n [] (new_EventBuffer n)"
  by (simp add: ring_inv_def new_EventBuffer_def)

lemma mod_distinct_window:
  fixes i m n :: nat
  assumes "i < m" "m - i < n"
  shows "i mod n \<noteq> m mod n"
proof
  assume "i mod n = m mod n"
  then have "n dvd m - i"
    using assms(1) by (metis mod_eq_dvd_iff_nat less_imp_le)
  then have "n \<le> m - i"
    using assms(1) by (auto intro: dvd_imp_le)
  with assms(2) show False by simp
qed

lemma ring_inv_push:
  assumes "0 < n" "ring_inv n xs b"
  shows "ring_inv n (xs @ [x]) (push x b)"
proof -
  let ?m = "length xs"
  from assms(2) have ms: "eb_maxSize b = n" and c: "eb_count b = min ?m n"
    and h: "eb_head b = ?m mod n" and t: "eb_tail b = (?m - min ?m n) mod n"
    and buf: "\<And>i. i < ?m \<Longrightarrow> ?m - n \<le> i \<Longrightarrow> eb_buffer b (i mod n) = Some (xs ! i)"
    by (simp_all add: ring_inv_def)
  have head': "eb_head (push x b) = Suc ?m mod n"
    by (simp add: push_def Let_def h ms mod_Suc_eq)
  have max': "eb_maxSize (push x b) = n"
    by (simp add: push_def Let_def ms)
  have count': "eb_count (push x b) = min (Suc ?m) n"
    by (simp add: push_def Let_def ms c min_def)
  have tail': "eb_tail (push x b) = (Suc ?m - min (Suc ?m) n) mod n"
  proof (cases "?m < n")
    case True
    then show ?thesis using \<open>0 < n\<close> by (simp add: push_def Let_def ms c t min_def)
  next
    case False
    then have "Suc ?m - n = Suc (?m - n)" by simp
    with False show ?thesis
      by (simp add: push_def Let_def ms c t min_def mod_Suc_eq)
  qed
  have bufeq: "eb_buffer (push x b) = (eb_buffer b)(?m mod n := Some x)"
    by (simp add: push_def Let_def h)
  have buf': "eb_buffer (push x b) (i mod n) = Some ((xs @ [x]) ! i)"
    if "i < Suc ?m" "Suc ?m - n \<le> i" for i
  proof (cases "i = ?m")
    case True
    then show ?thesis by (simp add: bufeq)
  next
    case False
    with that have lt: "i < ?m" and win: "?m - i < n" by auto
    then have "i mod n \<noteq> ?m mod n" by (rule mod_distinct_window)
    moreover have "eb_buffer b (i mod n) = Some (xs ! i)"
      using lt that(2) by (intro buf) auto
    ultimately show ?thesis using lt by (simp add: bufeq nth_append)
  qed
  show ?thesis
    unfolding ring_inv_def using head' max' count' tail' buf' by simp
qed

lemma ring_inv_pushMany:
  assumes "0 < n"
  shows "ring_inv n xs (pushMany xs (new_EventBuffer n))"
proof (induction xs rule: rev_induct)
  case Nil
  show ?case by (simp add: pushMany_def ring_inv_new)
next
  case (snoc x xs)
  then show ?case
    using ring_inv_push [OF assms, of xs "pushMany xs (new_EventBuffer n)" x]
    by (simp add: pushMany_def)
qed

lemma ring_inv_getAll:
  assumes "0 < n" "ring_inv n xs b"
  shows "getAll b = map Some (drop (length xs - n) xs)"
proof -
  let ?m = "length xs"
  let ?c = "min ?m n"
  from assms(2) have ms: "eb_maxSize b = n" and c: "eb_count b = ?c"
    and t: "eb_tail b = (?m - ?c) mod n"
    and buf: "\<And>i. i < ?m \<Longrightarrow> ?m - n \<le> i \<Longrightarrow> eb_buffer b (i mod n) = Some (xs ! i)"
    by (simp_all add: ring_inv_def)
  have off: "?m - ?c = ?m - n" by (simp add: min_def)
  have cell: "eb_buffer b ((eb_tail b + j) mod n) = Some (xs ! (?m - n + j))" if "j < ?c" for j
  proof -
    have "(eb_tail b + j) mod n = (?m - n + j) mod n"
      by (simp add: t off mod_add_left_eq)
    moreover have "?m - n + j < ?m" using that by (auto simp: min_def split: if_splits)
    ultimately show ?thesis using buf [of "?m - n + j"] by simp
  qed
  have len: "length (drop (?m - n) xs) = ?c" by (simp add: min_def)
  show ?thesis
  proof (cases "?c = 0")
    case True
    then show ?thesis using assms(1) by (simp add: getAll_def c min_def split: if_splits)
  next
    case False
    have "map (\<lambda>i. eb_buffer b ((eb_tail b + i) mod n)) [0..<?c] = map Some (drop (?m - n) xs)"
    proof (rule nth_equalityI)
      show "length (map (\<lambda>i. eb_buffer b ((eb_tail b + i) mod n)) [0..<?c]) =
            length (map Some (drop (?m - n) xs))"
        by (simp add: len)
    next
      fix j assume "j < length (map (\<lambda>i. eb_buffer b ((eb_tail b + i) mod n)) [0..<?c])"
      then have j: "j < ?c" by simp
      then have "j < length (drop (?m - n) xs)" by (simp only: len)
      then have "map Some (drop (?m - n) xs) ! j = Some (xs ! (?m - n + j))"
        by simp
      with j show "map (\<lambda>i. eb_buffer b ((eb_tail b + i) mod n)) [0..<?c] ! j =
            map Some (drop (?m - n) xs) ! j"
        by (simp add: cell)
    qed
    with False show ?thesis by (simp add: getAll_def c ms)
  qed
qed

text \<open>
  Claim C3. A buffer of capacity \<open>n > 0\<close> that received the pushes \<open>xs\<close> returns
  from \<open>getAll\<close> the last \<open>n\<close> of them in push order when more than \<open>n\<close> were
  pushed, all of them in push order otherwise, and its count never exceeds \<open>n\<close>.
\<close>

theorem EventBuffer_getAll_last_pushed:
  assumes "0 < n"
  shows "(length xs > n \<longrightarrow>
            getAll (pushMany xs (new_EventBuffer n)) = map Some (drop (length xs - n) xs))
       \<and> (length xs \<le> n \<longrightarrow> getAll (pushMany xs (new_EventBuffer n)) = map Some xs)
       \<and> eb_count (pushMany xs (new_EventBuffer n)) \<le> n"
  using ring_inv_getAll [OF assms ring_inv_pushMany [OF assms, of xs]]
    ring_inv_pushMany [OF assms, of xs]
  by (simp add: ring_inv_def)

theorem EventBuffer_getAll_last_pushed_witness:
  "getAll (pushMany [1, 2, 3, 4, 5 :: nat] (new_EventBuffer 3)) = [Some 3, Some 4, Some 5]
   \<and> getAll (pushMany [1, 2 :: nat] (new_EventBuffer 3)) = [Some 1, Some 2]"
  using EventBuffer_getAll_last_pushed [of 3 "[1, 2, 3, 4, 5 :: nat]"]
    EventBuffer_getAll_last_pushed [of 3 "[1, 2 :: nat]"]
  by simp

subsection \<open>The insertion-ordered map\<close>


lemma map_get_delete_other: "k' \<noteq> k \<Longrightarrow> map_get (map_delete k m) k' = map_get m k'"
  by (induction m) (auto simp: map_get_def map_delete_def)

lemma map_get_set_same: "map_get (map_set k v m) k = Some v"
  by (induction m) (auto simp: map_get_def)


lemma map_keys_delete: "map_keys (map_delete k m) = filter (\<lambda>x. x \<noteq> k) (map_keys m)"
  by (induction m) (auto simp: map_keys_def map_delete_def)

lemma map_set_absent: "k \<notin> set (map_keys m) \<Longrightarrow> map_set k v m = m @ [(k, v)]"
  by (induction m) (auto simp: map_keys_def)



lemma length_filter_present:
  assumes "distinct xs" "k \<in> set xs"
  shows "Suc (length (filter (\<lambda>x. x \<noteq> k) xs)) = length xs"
  using assms
proof (induction xs)
  case Nil
  then show ?case by simp
next
  case (Cons x xs)
  show ?case
  proof (cases "x = k")
    case True
    with Cons.prems have "k \<notin> set xs" by simp
    then have "filter (\<lambda>x. x \<noteq> k) xs = xs" by (induction xs) auto
    with True show ?thesis by simp
  next
    case False
    with Cons show ?thesis by simp
  qed
qed




subsection \<open>Expired entries\<close>

lemma lru_set_stores:
  "map_get (lru_cache (lru_set storedAt k v c)) k =
     Some \<lparr>entry_value = v, entry_expires = storedAt + lru_ttl c\<rparr>
   \<and> lru_ttl (lru_set storedAt k v c) = lru_ttl c"
  by (simp add: lru_set_def Let_def map_get_set_same)



subsection \<open>Setting a key that is already there\<close>

lemma lru_set_present_cache:
  assumes "map_ok (lru_cache c)" "lru_size c \<le> lru_maxSize c" "k \<in> set (lru_keys c)"
  shows "lru_cache (lru_set now k v c) =
         map_delete k (lru_cache c) @ [(k, \<lparr>entry_value = v, entry_expires = now + lru_ttl c\<rparr>)]"
proof -
  have "Suc (length (filter (\<lambda>x. x \<noteq> k) (map_keys (lru_cache c)))) = length (map_keys (lru_cache c))"
    using assms(1,3) by (intro length_filter_present) (simp_all add: map_ok_def lru_keys_def)
  then have "Suc (length (map_keys (map_delete k (lru_cache c)))) = length (lru_cache c)"
    by (simp add: map_keys_delete) (simp add: map_keys_def)
  then have "map_size (map_delete k (lru_cache c)) < lru_maxSize c"
    using assms(2) by (simp add: map_size_def lru_size_def map_keys_def)
  moreover have "k \<notin> set (map_keys (map_delete k (lru_cache c)))"
    by (simp add: map_keys_delete)
  ultimately show ?thesis
    by (simp add: lru_set_def Let_def map_set_absent)
qed

text \<open>
  Claim C10. In a cache that is within its capacity, and so in one that is exactly at
  capacity, a \<open>set\<close> of a key that is present evicts nothing: the keys are the same
  set, the key moves to the most recently used end, it is bound to the new value with
  a fresh expiry, and every other binding is as before. Hence a \<open>set\<close> that loses a
  key is a \<open>set\<close> of an absent key.
\<close>

theorem LRUCache_set_present_evicts_nothing:
  assumes "map_ok (lru_cache c)" "lru_size c \<le> lru_maxSize c" "k \<in> set (lru_keys c)"
  shows "lru_keys (lru_set now k v c) = filter (\<lambda>x. x \<noteq> k) (lru_keys c) @ [k]
       \<and> set (lru_keys (lru_set now k v c)) = set (lru_keys c)
       \<and> map_get (lru_cache (lru_set now k v c)) k =
           Some \<lparr>entry_value = v, entry_expires = now + lru_ttl c\<rparr>
       \<and> (\<forall>k'. k' \<noteq> k \<longrightarrow>
             map_get (lru_cache (lru_set now k v c)) k' = map_get (lru_cache c) k')
       \<and> lru_size (lru_set now k v c) = lru_size c"
proof -
  let ?e = "\<lparr>entry_value = v, entry_expires = now + lru_ttl c\<rparr>"
  have cache: "lru_cache (lru_set now k v c) = map_delete k (lru_cache c) @ [(k, ?e)]"
    using assms by (rule lru_set_present_cache)
  have keys: "lru_keys (lru_set now k v c) = filter (\<lambda>x. x \<noteq> k) (lru_keys c) @ [k]"
    using map_keys_delete [of k "lru_cache c"]
    by (simp add: lru_keys_def cache) (simp add: map_keys_def)
  have sets: "set (lru_keys (lru_set now k v c)) = set (lru_keys c)"
    using assms(3) by (auto simp: keys)
  have same: "map_get (lru_cache (lru_set now k v c)) k = Some ?e"
    using lru_set_stores [of now k v c] by simp
  have other: "map_get (lru_cache (lru_set now k v c)) k' = map_get (lru_cache c) k'"
    if "k' \<noteq> k" for k'
  proof -
    have "map_get (map_delete k (lru_cache c) @ [(k, ?e)]) k' = map_get (map_delete k (lru_cache c)) k'"
      using that by (simp add: map_get_def map_add_def split: option.splits)
    with that show ?thesis by (simp add: cache map_get_delete_other)
  qed
  have "Suc (length (filter (\<lambda>x. x \<noteq> k) (lru_keys c))) = length (lru_keys c)"
    using assms(1,3) by (intro length_filter_present) (simp_all add: map_ok_def lru_keys_def)
  then have "length (lru_keys (lru_set now k v c)) = length (lru_keys c)"
    by (simp add: keys)
  then have size: "lru_size (lru_set now k v c) = lru_size c"
    by (simp add: lru_size_def map_size_def lru_keys_def map_keys_def)
  from keys sets same other size show ?thesis by blast
qed

theorem LRUCache_set_present_evicts_nothing_witness:
  "lru_keys (lru_set 30 ''a'' (9::nat)
      (lru_set 20 ''b'' 22 (lru_set 10 ''a'' 11 (new_LRUCache 2 60000)))) = [''b'', ''a'']"
proof -
  let ?c = "lru_set 20 ''b'' 22 (lru_set 10 ''a'' (11::nat) (new_LRUCache 2 60000))"
  have c: "lru_cache ?c = [(''a'', \<lparr>entry_value = 11, entry_expires = 60010\<rparr>),
                           (''b'', \<lparr>entry_value = 22, entry_expires = 60020\<rparr>)]"
    and m: "lru_maxSize ?c = 2"
    by (simp_all add: lru_set_def Let_def new_LRUCache_def map_delete_def map_size_def)
  have ok: "map_ok (lru_cache ?c)" by (simp add: c map_ok_def map_keys_def)
  have sz: "lru_size ?c \<le> lru_maxSize ?c" by (simp add: lru_size_def map_size_def c m)
  have k: "''a'' \<in> set (lru_keys ?c)" by (simp add: lru_keys_def map_keys_def c)
  show ?thesis
    using LRUCache_set_present_evicts_nothing [OF ok sz k, of 30 9]
    by (simp add: lru_keys_def map_keys_def c)
qed

subsection \<open>Capacity bound and eviction order\<close>

























subsection \<open>Timestamp keys decode monotonically\<close>

lemma indexOf_from_range:
  "indexOf_from s c i = - 1 \<or> (i \<le> indexOf_from s c i \<and> indexOf_from s c i < i + int (length s))"
proof (induction s arbitrary: i)
  case Nil
  show ?case by simp
next
  case (Cons x xs)
  from Cons [of "i + 1"] show ?case by auto
qed

lemma indexOf_from_found:
  "c \<in> set s \<Longrightarrow> 0 \<le> i \<Longrightarrow> i \<le> indexOf_from s c i"
proof (induction s arbitrary: i)
  case Nil
  then show ?case by simp
next
  case (Cons x xs)
  show ?case
  proof (cases "x = c")
    case True
    then show ?thesis by simp
  next
    case False
    with Cons.prems have "c \<in> set xs" by simp
    from Cons.IH [OF this, of "i + 1"] Cons.prems(2) False show ?thesis by simp
  qed
qed

lemma toLowerCase_alphabet: "c \<in> set TID_CHARS \<Longrightarrow> toLowerCase c = c"
  by (auto simp: TID_CHARS_def toLowerCase_def)

lemma digit_range:
  assumes "c \<in> set TID_CHARS"
  shows "0 \<le> indexOf TID_CHARS c \<and> indexOf TID_CHARS c < 32"
proof -
  have "0 \<le> indexOf_from TID_CHARS c 0"
    using assms by (intro indexOf_from_found) simp_all
  moreover have "length TID_CHARS = 32" by (simp add: TID_CHARS_def)
  ultimately show ?thesis
    using indexOf_from_range [of TID_CHARS c 0] by (simp add: indexOf_def)
qed

lemma tid_loop_value:
  assumes "list_all (\<lambda>c. c \<in> set TID_CHARS) cs"
  shows "tid_loop cs ts = Some (ts * 32 ^ length cs + base32_value (map (indexOf TID_CHARS) cs))"
  using assms
proof (induction cs arbitrary: ts)
  case Nil
  show ?case by simp
next
  case (Cons c cs)
  then have c: "c \<in> set TID_CHARS" and cs: "list_all (\<lambda>c. c \<in> set TID_CHARS) cs"
    by simp_all
  have "indexOf TID_CHARS c \<noteq> - 1" using digit_range [OF c] by simp
  then show ?case
    using Cons.IH [OF cs, of "ts * 32 + indexOf TID_CHARS c"]
    by (simp add: toLowerCase_alphabet [OF c] Let_def algebra_simps)
qed

lemma base32_value_range:
  assumes "\<forall>d \<in> set ds. 0 \<le> d \<and> d < 32"
  shows "0 \<le> base32_value ds \<and> base32_value ds < 32 ^ length ds"
  using assms
proof (induction ds)
  case Nil
  show ?case by simp
next
  case (Cons d ds)
  then have d: "0 \<le> d" "d + 1 \<le> 32" and ih: "0 \<le> base32_value ds" "base32_value ds < 32 ^ length ds"
    by simp_all
  have "d * 32 ^ length ds + base32_value ds < (d + 1) * 32 ^ length ds"
    using ih(2) by (simp add: algebra_simps)
  also have "\<dots> \<le> 32 * 32 ^ length ds"
    using d(2) by (intro mult_right_mono) simp_all
  finally show ?case using d(1) ih(1) by simp
qed

lemma base32_value_mono:
  assumes "length xs = length ys"
    and "\<forall>d \<in> set xs. 0 \<le> d \<and> d < 32" "\<forall>d \<in> set ys. 0 \<le> d \<and> d < 32"
    and "lex_le xs ys"
  shows "base32_value xs \<le> base32_value ys"
  using assms
proof (induction xs ys rule: list_induct2)
  case Nil
  show ?case by simp
next
  case (Cons x xs y ys)
  have rx: "base32_value xs < 32 ^ length xs" and ry: "0 \<le> base32_value ys"
    using base32_value_range [of xs] base32_value_range [of ys] Cons.prems by simp_all
  from Cons.prems(3) consider "x < y" | "x = y" "lex_le xs ys" by auto
  then show ?case
  proof cases
    case 1
    then have "x + 1 \<le> y" by simp
    have "x * 32 ^ length xs + base32_value xs < (x + 1) * 32 ^ length xs"
      using rx by (simp add: algebra_simps)
    also have "\<dots> \<le> y * 32 ^ length xs"
      using \<open>x + 1 \<le> y\<close> by (intro mult_right_mono) simp_all
    finally show ?thesis using ry Cons.hyps by simp
  next
    case 2
    then show ?thesis using Cons by simp
  qed
qed

lemma bigint_div_nonneg: "0 \<le> a \<Longrightarrow> bigint_div a 1000 = a div 1000"
  by (cases "a = 0") (simp_all add: bigint_div_def)

lemma valid_tid_decodes:
  assumes "valid_tid s"
  shows "tidToDate s = Some (base32_value (tid_digits s) div 1000)
       \<and> length (tid_digits s) = 11
       \<and> (\<forall>d \<in> set (tid_digits s). 0 \<le> d \<and> d < 32)"
proof -
  from assms have len: "length s = 13" and all: "list_all (\<lambda>c. c \<in> set TID_CHARS) s"
    by (simp_all add: valid_tid_def)
  have all11: "list_all (\<lambda>c. c \<in> set TID_CHARS) (take 11 s)"
    using all by (auto simp: list_all_iff dest: in_set_takeD)
  have digits: "\<forall>d \<in> set (tid_digits s). 0 \<le> d \<and> d < 32"
    using all11 digit_range by (auto simp: tid_digits_def list_all_iff)
  have loop: "tid_loop (take 11 s) 0 = Some (base32_value (tid_digits s))"
    using tid_loop_value [OF all11, of 0] by (simp add: tid_digits_def)
  have "0 \<le> base32_value (tid_digits s)"
    using base32_value_range [OF digits] by simp
  then have "bigint_div (base32_value (tid_digits s)) 1000 = base32_value (tid_digits s) div 1000"
    by (rule bigint_div_nonneg)
  moreover have "s \<noteq> []" using len by auto
  ultimately have "tidToDate s = Some (base32_value (tid_digits s) div 1000)"
    using len loop by (simp add: tidToDate_def)
  moreover have "length (tid_digits s) = 11" using len by (simp add: tid_digits_def)
  ultimately show ?thesis using digits by simp
qed

lemma base32_value_sum:
  "base32_value ds = (\<Sum>i<length ds. ds ! i * 32 ^ (length ds - 1 - i))"
proof (induction ds)
  case Nil
  show ?case by simp
next
  case (Cons d ds)
  have "(\<Sum>i<Suc (length ds). (d # ds) ! i * 32 ^ (Suc (length ds) - 1 - i)) =
        (d # ds) ! 0 * 32 ^ (Suc (length ds) - 1 - 0)
        + (\<Sum>i<length ds. (d # ds) ! Suc i * 32 ^ (Suc (length ds) - 1 - Suc i))"
    by (rule sum.lessThan_Suc_shift)
  then have "(\<Sum>i<length (d # ds). (d # ds) ! i * 32 ^ (length (d # ds) - 1 - i)) =
        d * 32 ^ length ds + (\<Sum>i<length ds. ds ! i * 32 ^ (length ds - 1 - i))"
    by simp
  with Cons show ?case by simp
qed

text \<open>
  Claim C8. A valid 13-character timestamp key \<open>s\<close> decodes to the date
  \<open>v div 1000\<close>, where \<open>v\<close> is the sum of \<open>digit i * 32 ^ (10 - i)\<close>
  over the first 11 characters, a digit being the position of the character in the
  alphabet; the last two characters do not occur in it. For valid keys \<open>s\<close> and
  \<open>t\<close>, when the first 11 characters of \<open>s\<close> come before or equal those of
  \<open>t\<close> in the lexicographic order of the alphabet, the date of \<open>s\<close> is not
  after the date of \<open>t\<close>, and keys that agree on their first 11 characters decode
  to the same date.
\<close>

theorem tidToDate_monotone:
  assumes "valid_tid s" "valid_tid t"
  shows "tidToDate s = Some ((\<Sum>i<11. tid_digits s ! i * 32 ^ (10 - i)) div 1000)
       \<and> tidToDate t = Some ((\<Sum>i<11. tid_digits t ! i * 32 ^ (10 - i)) div 1000)
       \<and> (\<exists>a b. tidToDate s = Some a \<and> tidToDate t = Some b
            \<and> (lex_le (tid_digits s) (tid_digits t) \<longrightarrow> a \<le> b))
       \<and> (take 11 s = take 11 t \<longrightarrow> tidToDate s = tidToDate t)"
proof -
  from valid_tid_decodes [OF assms(1)]
  have ds: "tidToDate s = Some (base32_value (tid_digits s) div 1000)"
    and ls: "length (tid_digits s) = 11"
    and rs: "\<forall>d \<in> set (tid_digits s). 0 \<le> d \<and> d < 32" by simp_all
  from valid_tid_decodes [OF assms(2)]
  have dt: "tidToDate t = Some (base32_value (tid_digits t) div 1000)"
    and lt: "length (tid_digits t) = 11"
    and rt: "\<forall>d \<in> set (tid_digits t). 0 \<le> d \<and> d < 32" by simp_all
  have vs: "base32_value (tid_digits s) = (\<Sum>i<11. tid_digits s ! i * 32 ^ (10 - i))"
    using base32_value_sum [of "tid_digits s"] by (simp add: ls)
  have vt: "base32_value (tid_digits t) = (\<Sum>i<11. tid_digits t ! i * 32 ^ (10 - i))"
    using base32_value_sum [of "tid_digits t"] by (simp add: lt)
  have mono: "base32_value (tid_digits s) div 1000 \<le> base32_value (tid_digits t) div 1000"
    if "lex_le (tid_digits s) (tid_digits t)"
  proof -
    have "base32_value (tid_digits s) \<le> base32_value (tid_digits t)"
      using ls lt rs rt that by (intro base32_value_mono) simp_all
    then show ?thesis by (rule zdiv_mono1) simp
  qed
  have same: "tidToDate s = tidToDate t" if "take 11 s = take 11 t"
    using that by (simp add: ds dt tid_digits_def)
  have "tidToDate s = Some ((\<Sum>i<11. tid_digits s ! i * 32 ^ (10 - i)) div 1000)"
    using ds by (simp only: vs)
  moreover have "tidToDate t = Some ((\<Sum>i<11. tid_digits t ! i * 32 ^ (10 - i)) div 1000)"
    using dt by (simp only: vt)
  moreover have "\<exists>a b. tidToDate s = Some a \<and> tidToDate t = Some b
            \<and> (lex_le (tid_digits s) (tid_digits t) \<longrightarrow> a \<le> b)"
    using ds dt mono by blast
  ultimately show ?thesis using same by blast
qed

theorem tidToDate_monotone_witness:
  "lex_le (tid_digits ''3jzfcijpj2z2a'') (tid_digits ''3kzfcijpj2z2a'')
   \<and> tidToDate ''3jzfcijpj2z2a'' = Some 1688137381887
   \<and> tidToDate ''3kzfcijpj2z2a'' = Some 1723321753975
   \<and> (1688137381887 :: int) < 1723321753975
   \<and> tidToDate ''3jzfcijpj2z22'' = Some 1688137381887"
proof -
  have v1: "valid_tid ''3jzfcijpj2z2a''" by (simp add: valid_tid_def TID_CHARS_def)
  have v2: "valid_tid ''3kzfcijpj2z2a''" by (simp add: valid_tid_def TID_CHARS_def)
  have v3: "valid_tid ''3jzfcijpj2z22''" by (simp add: valid_tid_def TID_CHARS_def)
  have d1: "tid_digits ''3jzfcijpj2z2a'' = [1, 15, 31, 11, 8, 14, 15, 21, 15, 0, 31]"
    by (simp add: tid_digits_def indexOf_def TID_CHARS_def)
  have d2: "tid_digits ''3kzfcijpj2z2a'' = [1, 16, 31, 11, 8, 14, 15, 21, 15, 0, 31]"
    by (simp add: tid_digits_def indexOf_def TID_CHARS_def)
  have le: "lex_le (tid_digits ''3jzfcijpj2z2a'') (tid_digits ''3kzfcijpj2z2a'')"
    by (simp add: d1 d2)
  have s1: "(\<Sum>i<11. tid_digits ''3jzfcijpj2z2a'' ! i * 32 ^ (10 - i)) = 1688137381887007"
    unfolding d1 by (simp add: lessThan_nat_numeral lessThan_Suc)
  have s2: "(\<Sum>i<11. tid_digits ''3kzfcijpj2z2a'' ! i * 32 ^ (10 - i)) = 1723321753975839"
    unfolding d2 by (simp add: lessThan_nat_numeral lessThan_Suc)
  from tidToDate_monotone [OF v1 v2] le
  have a: "tidToDate ''3jzfcijpj2z2a'' = Some 1688137381887"
    and b: "tidToDate ''3kzfcijpj2z2a'' = Some 1723321753975"
    by (simp_all only: s1 s2) simp_all
  have t11: "take 11 ''3jzfcijpj2z2a'' = take 11 ''3jzfcijpj2z22''" by simp
  from tidToDate_monotone [OF v1 v3] t11
  have "tidToDate ''3jzfcijpj2z2a'' = tidToDate ''3jzfcijpj2z22''" by blast
  with a b le show ?thesis by simp
qed

subsection \<open>Parsing a JSON event\<close>

lemma get_prop_field:
  "get_prop (Some v) name = (if v = JNull then Inl TypeError else Inr (field v name))"
  by (cases v) simp_all

text \<open>
  Claim C4, as amended. \<open>parseJetstreamEvent\<close> returns \<open>null\<close> exactly when the
  text is not valid JSON or one of \<open>did\<close>, \<open>time_us\<close>, \<open>kind\<close> is absent from
  the parsed value or falsy (\<open>null\<close>, \<open>false\<close>, \<open>0\<close>, the empty string);
  otherwise it returns the parsed event. Every error is a value of the model, so the
  function never throws.
\<close>

theorem parseJetstreamEvent_null_iff:
  "(parseJetstreamEvent parsed = None) =
     (case parsed of
        Inl e \<Rightarrow> True
      | Inr event \<Rightarrow> \<not> (truthy (field event ''did'') \<and> truthy (field event ''time_us'')
                        \<and> truthy (field event ''kind'')))
   \<and> (case parsed of
        Inl e \<Rightarrow> True
      | Inr event \<Rightarrow>
          parseJetstreamEvent parsed =
            (if truthy (field event ''did'') \<and> truthy (field event ''time_us'')
                \<and> truthy (field event ''kind'')
             then Some event else None))"
proof (cases parsed)
  case (Inl e)
  then show ?thesis by (simp add: parseJetstreamEvent_def)
next
  case (Inr event)
  show ?thesis
  proof (cases "event = JNull")
    case True
    with Inr show ?thesis by (simp add: parseJetstreamEvent_def validate_event_def)
  next
    case False
    with Inr show ?thesis
      by (simp add: parseJetstreamEvent_def validate_event_def get_prop_field)
  qed
qed

text \<open>
  All three fields are present, but \<open>time_us\<close> is 0: the event is dropped.
\<close>

theorem parseJetstreamEvent_counterexample:
  "parseJetstreamEvent
     (Inr (JObj [(''did'', JStr ''did:plc:abc''), (''time_us'', JNum 0),
                 (''kind'', JStr ''commit'')])) = None
   \<and> field (JObj [(''did'', JStr ''did:plc:abc''), (''time_us'', JNum 0),
                  (''kind'', JStr ''commit'')]) ''did'' \<noteq> None
   \<and> field (JObj [(''did'', JStr ''did:plc:abc''), (''time_us'', JNum 0),
                  (''kind'', JStr ''commit'')]) ''time_us'' \<noteq> None
   \<and> field (JObj [(''did'', JStr ''did:plc:abc''), (''time_us'', JNum 0),
                  (''kind'', JStr ''commit'')]) ''kind'' \<noteq> None"
  by (simp add: parseJetstreamEvent_def validate_event_def)

theorem parseJetstreamEvent_null_iff_witness:
  "parseJetstreamEvent
     (Inr (JObj [(''did'', JStr ''did:plc:abc''), (''time_us'', JNum 1700000000000000),
                 (''kind'', JStr ''commit'')]))
   = Some (JObj [(''did'', JStr ''did:plc:abc''), (''time_us'', JNum 1700000000000000),
                 (''kind'', JStr ''commit'')])"
  using parseJetstreamEvent_null_iff
    [of "Inr (JObj [(''did'', JStr ''did:plc:abc''), (''time_us'', JNum 1700000000000000),
                    (''kind'', JStr ''commit'')])"]
  by simp

subsection \<open>The classifier is total\<close>

lemma isAtUri_total: "\<exists>b. isAtUri v = Inr b"
  by (cases v) (auto simp: isAtUri_def)

lemma isDid_total: "\<exists>b. isDid v = Inr b"
  by (cases v) (auto simp: isDid_def)

lemma isBlobRef_total: "\<exists>b. isBlobRef v = Inr b"
  by (cases v) (auto simp: isBlobRef_def err_bind_def)

lemma isStrongRef_total: "\<exists>b. isStrongRef v = Inr b"
proof (cases v)
  case (JObj ps)
  show ?thesis
  proof (cases "map_of ps ''uri''")
    case None
    with JObj show ?thesis by (auto simp: isStrongRef_def err_bind_def)
  next
    case (Some u)
    with JObj show ?thesis by (cases u) (auto simp: isStrongRef_def err_bind_def)
  qed
qed (auto simp: isStrongRef_def err_bind_def)

lemma isDatetime_total: "\<exists>b. isDatetime v = Inr b"
  by (cases v) (auto simp: isDatetime_def)

lemma isCid_total: "\<exists>b. isCid v = Inr b"
  by (cases v) (auto simp: isCid_def)

lemma isBase64_total: "\<exists>b. isBase64 v = Inr b"
  by (cases v) (auto simp: isBase64_def)

lemma isBytes_total: "\<exists>b. isBytes v = Inr b"
  by (cases v) (auto simp: isBytes_def)

lemma isBase64_true: "isBase64 v = Inr True \<Longrightarrow> \<exists>s. v = JStr s \<and> 20 \<le> length s"
  by (cases v) (auto simp: isBase64_def split: if_splits)

text \<open>
  Claim C9. On every JSON value \<open>detectEncoding\<close> returns an encoding type and no
  error, and a value classified as base64 is a string of at least 20 characters.
\<close>

theorem detectEncoding_total:
  "(\<exists>e. detectEncoding v = Inr e)
   \<and> (detectEncoding v = Inr Base64 \<longrightarrow> (\<exists>s. v = JStr s \<and> 20 \<le> length s))"
proof -
  obtain b1 where b1: "isAtUri v = Inr b1" using isAtUri_total by blast
  obtain b2 where b2: "isDid v = Inr b2" using isDid_total by blast
  obtain b3 where b3: "isBlobRef v = Inr b3" using isBlobRef_total by blast
  obtain b4 where b4: "isStrongRef v = Inr b4" using isStrongRef_total by blast
  obtain b5 where b5: "isDatetime v = Inr b5" using isDatetime_total by blast
  obtain b6 where b6: "isCid v = Inr b6" using isCid_total by blast
  obtain b7 where b7: "isBase64 v = Inr b7" using isBase64_total by blast
  obtain b8 where b8: "isBytes v = Inr b8" using isBytes_total by blast
  have total: "\<exists>e. detectEncoding v = Inr e"
    by (simp add: detectEncoding_def err_bind_def b1 b2 b3 b4 b5 b6 b7 b8)
  have "\<exists>s. v = JStr s \<and> 20 \<le> length s" if h: "detectEncoding v = Inr Base64"
  proof -
    from h have "b7"
      by (simp add: detectEncoding_def err_bind_def b1 b2 b3 b4 b5 b6 b7 b8 split: if_splits)
    with b7 have "isBase64 v = Inr True" by simp
    then show ?thesis by (rule isBase64_true)
  qed
  with total show ?thesis by blast
qed

theorem detectEncoding_total_witness:
  "detectEncoding (JStr ''SGVsbG8gV29ybGQhIQ=='') = Inr Base64
   \<and> (\<exists>s. JStr ''SGVsbG8gV29ybGQhIQ=='' = JStr s \<and> 20 \<le> length s)"
proof -
  have "detectEncoding (JStr ''SGVsbG8gV29ybGQhIQ=='') = Inr Base64"
    by code_simp
  with detectEncoding_total [of "JStr ''SGVsbG8gV29ybGQhIQ==''"] show ?thesis by blast
qed

subsection \<open>One computation per key in flight\<close>

















subsection \<open>A frame on which the scan never returns\<close>

lemma bitlen_le: "a < 2 ^ n \<Longrightarrow> bitlen a \<le> n"
proof (induction n arbitrary: a)
  case 0
  then show ?case by simp
next
  case (Suc n)
  show ?case
  proof (cases "a = 0")
    case True
    then show ?thesis by simp
  next
    case False
    from Suc.prems have "a div 2 < 2 ^ n" by simp
    then have "bitlen (a div 2) \<le> n" by (rule Suc.IH)
    moreover from False obtain m where "a = Suc m" by (cases a) auto
    ultimately show ?thesis by simp
  qed
qed

lemma round_double_small:
  assumes "\<bar>x\<bar> < 2 ^ 53"
  shows "round_double x = x"
proof -
  have "nat \<bar>x\<bar> < 2 ^ 53" using assms by (simp add: nat_less_iff)
  then have "bitlen (nat \<bar>x\<bar>) - 53 = 0" using bitlen_le [of "nat \<bar>x\<bar>" 53] by simp
  then have "round_double x = sgn x * int (nat \<bar>x\<bar>)"
    by (simp add: round_double_def Let_def)
  also have "\<dots> = x" by (simp add: sgn_if)
  finally show ?thesis .
qed

lemma js_add_small: "\<bar>a + b\<bar> < 2 ^ 53 \<Longrightarrow> js_add a b = a + b"
  by (simp add: js_add_def round_double_small)

lemma round_double_numeral [simp]:
  "\<bar>numeral k :: int\<bar> < 2 ^ 53 \<Longrightarrow> round_double (numeral k) = numeral k"
  "\<bar>- numeral k :: int\<bar> < 2 ^ 53 \<Longrightarrow> round_double (- numeral k) = - numeral k"
  "round_double 0 = 0" "round_double 1 = 1"
  by (simp_all add: round_double_small)

lemma hanging_frame_head: "read_head hanging_frame 1 = HeadArg 2 (- 5) 6"
  by (simp add: hanging_frame_def read_head_def byte_at_def js_add_def js_shr_def js_and_def
      js_or_def js_shl_def num_or_undefined_def ToInt32_def Let_def)

lemma hanging_frame_item: "readValue (Suc n) hanging_frame 1 = Pos 1"
  by (simp add: hanging_frame_head Number_of_BigInt_def js_add_def)
    (simp add: hanging_frame_def)

lemma hanging_frame_loop: "until_break n hanging_frame 1 = OutOfFuel"
proof (induction n)
  case 0
  show ?case by simp
next
  case (Suc n)
  have b: "byte_at hanging_frame 1 \<noteq> Some 255"
    by (simp add: hanging_frame_def byte_at_def)
  show ?case
  proof (cases n)
    case 0
    with b show ?thesis by simp
  next
    case (Suc m)
    with b hanging_frame_item [of m] Suc.IH show ?thesis by simp
  qed
qed

lemma hanging_frame_scan: "findCborBoundary fuel hanging_frame = OutOfFuel"
proof (cases fuel)
  case 0
  then show ?thesis by (simp add: findCborBoundary_def)
next
  case (Suc n)
  have "read_head hanging_frame 0 = HeadIndefinite 4 1"
    by (simp add: hanging_frame_def read_head_def byte_at_def js_add_def js_shr_def js_and_def
        num_or_undefined_def ToInt32_def Let_def)
  moreover have "\<not> 0 \<ge> int (length hanging_frame)" by (simp add: hanging_frame_def)
  ultimately show ?thesis
    using Suc by (simp add: findCborBoundary_def hanging_frame_loop skip_break_def)
qed

text \<open>
  Claim C2 fails on this frame: whatever the fuel, the scan of \<open>9f 5a ff ff ff fb\<close>
  runs out of it, so \<open>decodeFirehoseFrame\<close> neither returns \<open>null\<close> nor
  throws; it does not return.
\<close>

theorem decodeFirehoseFrame_hangs:
  "decodeFirehoseFrame fuel decode header_op header_t [0x9f, 0x5a, 0xff, 0xff, 0xff, 0xfb] = None"
  using hanging_frame_scan [of fuel]
  by (simp add: decodeFirehoseFrame_def hanging_frame_def)

subsection \<open>A well-formed header whose boundary is missed\<close>

lemma be_bytes_1: "be_bytes 1 n = [of_nat n]"
  by simp

lemma be_bytes_2: "be_bytes 2 n = [of_nat (n div 256), of_nat n]"
proof -
  have h: "(2::nat) = Suc (Suc 0)" by simp
  show ?thesis unfolding h by simp
qed

lemma be_bytes_4:
  "be_bytes 4 n = [of_nat (n div 16777216), of_nat (n div 65536), of_nat (n div 256), of_nat n]"
proof -
  have h: "(4::nat) = Suc (Suc (Suc (Suc 0)))" by simp
  show ?thesis unfolding h by simp
qed

lemma be_bytes_8:
  "be_bytes 8 n = [of_nat (n div 72057594037927936), of_nat (n div 281474976710656),
                   of_nat (n div 1099511627776), of_nat (n div 4294967296),
                   of_nat (n div 16777216), of_nat (n div 65536), of_nat (n div 256), of_nat n]"
proof -
  have h: "(8::nat) = Suc (Suc (Suc (Suc (Suc (Suc (Suc (Suc 0)))))))" by simp
  show ?thesis unfolding h by simp
qed

lemma four_byte_sign:
  assumes "length bs = 2147483648"
  shows "readValue (Suc n) (0x5a # 0x80 # 0 # 0 # 0 # bs @ rest) 0 = Pos (- 2147483643)"
proof -
  let ?bytes = "0x5a # 0x80 # 0 # 0 # 0 # bs @ rest"
  have "read_head ?bytes 0 = HeadArg 2 (- 2147483648) 5"
    by (simp add: read_head_def byte_at_def js_add_def js_shr_def js_and_def
        js_or_def js_shl_def num_or_undefined_def ToInt32_def Let_def)
  then show ?thesis
    by (simp add: Number_of_BigInt_def js_add_def)
qed

text \<open>
  Claim C1 fails on this header. It is well-formed and its encoding has 2147483653
  bytes, but the scan reads the four-byte length \<open>80 00 00 00\<close> as the 32-bit
  integer \<open>-2147483648\<close> and returns the boundary -2147483643, whatever body
  follows.
\<close>

theorem findCborBoundary_long_header:
  "well_formed long_header
   \<and> int (length (encode long_header)) = 2147483653
   \<and> findCborBoundary (Suc n) (encode long_header @ encode body) = Pos (- 2147483643)"
proof -
  have len: "length (replicate 2147483648 (0 :: byte)) = 2147483648"
    by (simp only: length_replicate)
  have enc: "encode long_header = 0x5a # 0x80 # 0 # 0 # 0 # replicate 2147483648 0"
    unfolding long_header_def encode.simps len head_bytes.simps be_bytes_4 by simp
  have wf: "well_formed long_header"
    unfolding long_header_def well_formed.simps len by simp
  have l: "int (length (encode long_header)) = 2147483653"
    unfolding enc list.size len by simp
  have "findCborBoundary (Suc n) (encode long_header @ encode body) = Pos (- 2147483643)"
    unfolding enc findCborBoundary_def using four_byte_sign [OF len, of n "encode body"]
    by (simp only: append_Cons)
  with wf l show ?thesis by (simp only: simp_thms)
qed

subsection \<open>Headers below 2 GiB are split where they end\<close>

lemma or_add_int:
  fixes x y :: int
  assumes "0 \<le> y" "y < 2 ^ k" "2 ^ k dvd x"
  shows "x OR y = x + y"
proof -
  from assms(3) obtain z where x: "x = push_bit k z"
    by (auto simp: push_bit_eq_mult dvd_def mult.commute)
  have y: "take_bit k y = y" using assms(1,2) by (simp add: take_bit_int_eq_self)
  have "concat_bit k y z = take_bit k y + push_bit k z" by (rule concat_bit_eq)
  then have "y OR push_bit k z = y + push_bit k z"
    by (simp add: concat_bit_def y)
  then show ?thesis by (simp add: x or.commute add.commute)
qed

lemma and_31: "(x::int) AND 31 = x mod 32"
proof -
  have "(31::int) = mask 5" by (simp add: mask_eq_exp_minus_1)
  then have "x AND 31 = take_bit 5 x" by (simp add: take_bit_eq_mask)
  then show ?thesis by (simp add: take_bit_eq_mod)
qed

lemma ToInt32_small: "- (2 ^ 31) \<le> x \<Longrightarrow> x < 2 ^ 31 \<Longrightarrow> ToInt32 x = x"
  by (simp add: ToInt32_def)

lemma uint_byte_of_nat_mod: "uint (of_nat n :: byte) = int (n mod 256)"
  by (simp add: uint_nat unat_of_nat)

lemma uint_byte_of_nat: "n < 256 \<Longrightarrow> uint (of_nat n :: byte) = int n"
  by (simp add: uint_byte_of_nat_mod)

lemma js_add_nonneg: "0 \<le> a \<Longrightarrow> 0 \<le> b \<Longrightarrow> a + b < 2 ^ 53 \<Longrightarrow> js_add a b = a + b"
  by (rule js_add_small) simp

lemma byte_at_append_offset:
  "0 \<le> i \<Longrightarrow> byte_at (pre @ ys) (int (length pre) + i) = byte_at ys i"
  by (auto simp: byte_at_def nth_append nat_add_distrib)

lemma byte_at_Cons_0: "byte_at (x # xs) 0 = Some (uint x)"
  by (simp add: byte_at_def)

lemma byte_at_Cons_pos: "0 < i \<Longrightarrow> byte_at (x # xs) i = byte_at xs (i - 1)"
  by (auto simp: byte_at_def nth_Cons' nat_diff_distrib)

lemma initial_byte:
  assumes "mt < 8" "ai < 32"
  shows "js_shr (Some (uint (of_nat (mt * 32 + ai) :: byte))) 5 = int mt"
    and "js_and (Some (uint (of_nat (mt * 32 + ai) :: byte))) (Some 31) = int ai"
proof -
  have lt: "mt * 32 + ai < 256" using assms by simp
  then have u: "uint (of_nat (mt * 32 + ai) :: byte) = int (mt * 32 + ai)"
    by (rule uint_byte_of_nat)
  have t: "ToInt32 (int (mt * 32 + ai)) = int (mt * 32 + ai)"
    using lt by (intro ToInt32_small) simp_all
  show "js_shr (Some (uint (of_nat (mt * 32 + ai) :: byte))) 5 = int mt"
    using assms(2) by (simp add: js_shr_def num_or_undefined_def u t del: of_nat_add of_nat_mult)
  have "int (mt * 32 + ai) mod 32 = int ((mt * 32 + ai) mod 32)"
    by (simp only: of_nat_mod of_nat_numeral)
  then have m: "int (mt * 32 + ai) mod 32 = int ai" using assms(2) by simp
  have "ToInt32 31 = 31" by (simp add: ToInt32_def)
  then show "js_and (Some (uint (of_nat (mt * 32 + ai) :: byte))) (Some 31) = int ai"
    by (simp add: js_and_def num_or_undefined_def u t and_31 m del: of_nat_add of_nat_mult)
qed

lemma byte_at_append_0: "byte_at (pre @ ys) (int (length pre)) = byte_at ys 0"
  using byte_at_append_offset [of 0 pre ys] by simp

lemma read_uint64_shift:
  assumes "0 \<le> q" "int (length pre) + q + int k < 2 ^ 53"
  shows "read_uint64 k (pre @ ys) a (int (length pre) + q) =
         (case read_uint64 k ys a q of
            Inl e \<Rightarrow> Inl e
          | Inr (a', q') \<Rightarrow> Inr (a', int (length pre) + q'))"
  using assms
proof (induction k arbitrary: a q)
  case 0
  show ?case by simp
next
  case (Suc k)
  have j1: "js_add (int (length pre) + q) 1 = int (length pre) + (q + 1)"
    using Suc.prems by (subst js_add_nonneg) simp_all
  have j2: "js_add q 1 = q + 1"
    using Suc.prems by (subst js_add_nonneg) simp_all
  have "read_uint64 k (pre @ ys) a' (int (length pre) + (q + 1)) =
         (case read_uint64 k ys a' (q + 1) of
            Inl e \<Rightarrow> Inl e
          | Inr (a', q') \<Rightarrow> Inr (a', int (length pre) + q'))" for a'
    using Suc.prems by (intro Suc.IH) simp_all
  then show ?case
    using Suc.prems(1)
    by (simp add: byte_at_append_offset j1 j2 split: option.splits)
qed

lemma read_head_shift:
  assumes "int (length pre) + 9 < 2 ^ 53"
  shows "read_head (pre @ ys) (int (length pre)) = shift_head (int (length pre)) (read_head ys 0)"
proof -
  let ?p = "int (length pre)"
  have a1: "js_add ?p 1 = ?p + 1" using assms by (subst js_add_nonneg) simp_all
  have ak: "js_add (?p + 1) k = ?p + (1 + k)" if "0 \<le> k" "k \<le> 4" for k
    using assms that by (subst js_add_nonneg) simp_all
  have b1: "js_add 0 1 = 1" by (simp add: js_add_def)
  have bk: "js_add 1 k = 1 + k" if "0 \<le> k" "k \<le> 4" for k
    using that by (subst js_add_nonneg) simp_all
  have by0: "byte_at (pre @ ys) ?p = byte_at ys 0" by (rule byte_at_append_0)
  have byk: "byte_at (pre @ ys) (?p + k) = byte_at ys k" if "0 \<le> k" for k
    using that by (rule byte_at_append_offset)
  have u: "read_uint64 8 (pre @ ys) 0 (?p + 1) =
         (case read_uint64 8 ys 0 1 of
            Inl e \<Rightarrow> Inl e
          | Inr (a', q') \<Rightarrow> Inr (a', ?p + q'))"
    using assms read_uint64_shift [of 1 pre 8 ys 0] by simp
  show ?thesis
    unfolding read_head_def shift_head_def Let_def a1 b1 by0
    by (simp add: ak bk byk u split: option.splits sum.splits)
qed

lemma num_byte: "0 \<le> b \<Longrightarrow> b < 256 \<Longrightarrow> num_or_undefined (Some b) = b"
  by (simp add: num_or_undefined_def ToInt32_small)

lemma head_direct:
  assumes "mt < 8" "n < 24"
  shows "read_head (head_bytes mt Direct n @ rest) 0 = HeadArg (int mt) (int n) 1"
proof -
  have n32: "n < 32" using assms(2) by simp
  show ?thesis
    using assms(2)
    by (simp add: read_head_def Let_def byte_at_Cons_0 initial_byte [OF assms(1) n32]
        js_add_def del: of_nat_add of_nat_mult)
qed

lemma head_one:
  assumes "mt < 8" "n < 256"
  shows "read_head (head_bytes mt OneByte n @ rest) 0 = HeadArg (int mt) (int n) 2"
  by (simp add: read_head_def Let_def byte_at_Cons_0 byte_at_Cons_pos
        initial_byte [OF assms(1), of 24] uint_byte_of_nat [OF assms(2)]
        js_add_def del: of_nat_add of_nat_mult)

lemma head_two:
  assumes "mt < 8" "n < 65536"
  shows "read_head (head_bytes mt TwoBytes n @ rest) 0 = HeadArg (int mt) (int n) 3"
proof -
  let ?hi = "int (n div 256)" and ?lo = "int (n mod 256)"
  have hi: "uint (of_nat (n div 256) :: byte) = ?hi"
    using assms(2) by (intro uint_byte_of_nat) simp
  have lo: "uint (of_nat n :: byte) = ?lo" by (rule uint_byte_of_nat_mod)
  have hi_r: "0 \<le> ?hi" "?hi < 256" using assms(2) by simp_all
  have lo_r: "0 \<le> ?lo" "?lo < 256" by simp_all
  have shl: "js_shl (Some ?hi) 8 = ?hi * 256"
    using hi_r by (simp add: js_shl_def num_byte ToInt32_small)
  have "num_or_undefined (Some (?hi * 256)) = ?hi * 256"
    using hi_r by (simp add: num_or_undefined_def ToInt32_small)
  then have "js_or (Some (?hi * 256)) (Some ?lo) = ?hi * 256 OR ?lo"
    using lo_r by (simp add: js_or_def num_byte)
  also have "\<dots> = ?hi * 256 + ?lo"
    using lo_r by (intro or_add_int [where k = 8]) simp_all
  also have "\<dots> = int (n div 256 * 256 + n mod 256)"
    by (simp only: of_nat_add of_nat_mult of_nat_numeral)
  also have "\<dots> = int n" by simp
  finally have arg: "js_or (Some (?hi * 256)) (Some ?lo) = int n" .
  show ?thesis
    by (simp add: read_head_def Let_def byte_at_Cons_0 byte_at_Cons_pos be_bytes_2
        initial_byte [OF assms(1), of 25] hi lo shl arg
        js_add_def del: of_nat_add of_nat_mult of_nat_div of_nat_mod)
qed

lemma ToInt32_high:
  assumes "2 ^ 31 \<le> x" "x < 2 ^ 32"
  shows "ToInt32 x = x - 2 ^ 32"
proof -
  have "x + 2 ^ 31 = (x - 2 ^ 31) + 2 ^ 32" by simp
  then have "(x + 2 ^ 31) mod 2 ^ 32 = (x - 2 ^ 31) mod 2 ^ 32"
    by (simp only: mod_add_self2)
  also have "\<dots> = x - 2 ^ 31"
    using assms by (intro mod_pos_pos_trivial) simp_all
  finally show ?thesis by (simp add: ToInt32_def)
qed

lemma four_bytes_value:
  fixes b0 b1 b2 b3 :: int
  assumes "0 \<le> b0" "b0 < 256" "0 \<le> b1" "b1 < 256" "0 \<le> b2" "b2 < 256" "0 \<le> b3" "b3 < 256"
  shows "js_or (Some (js_or (Some (js_or (Some (js_shl (Some b0) 24)) (Some (js_shl (Some b1) 16))))
                            (Some (js_shl (Some b2) 8))))
               (Some b3)
         = (if b0 < 128 then b0 else b0 - 256) * 16777216 + b1 * 65536 + b2 * 256 + b3"
proof -
  define c where "c = (if b0 < 128 then b0 else b0 - 256)"
  have c: "- 128 \<le> c" "c < 128" using assms(1,2) by (simp_all add: c_def)
  have s0: "js_shl (Some b0) 24 = c * 16777216"
  proof (cases "b0 < 128")
    case True
    then have "ToInt32 (b0 * 16777216) = b0 * 16777216"
      using assms(1) by (intro ToInt32_small) simp_all
    with True assms(1,2) show ?thesis by (simp add: js_shl_def num_byte c_def)
  next
    case False
    then have "ToInt32 (b0 * 16777216) = b0 * 16777216 - 2 ^ 32"
      using assms(2) by (intro ToInt32_high) simp_all
    with False assms(1,2) show ?thesis by (simp add: js_shl_def num_byte c_def algebra_simps)
  qed
  have s1: "js_shl (Some b1) 16 = b1 * 65536"
    using assms(3,4) by (simp add: js_shl_def num_byte ToInt32_small)
  have s2: "js_shl (Some b2) 8 = b2 * 256"
    using assms(5,6) by (simp add: js_shl_def num_byte ToInt32_small)
  have n0: "num_or_undefined (Some (c * 16777216)) = c * 16777216"
    using c by (simp add: num_or_undefined_def ToInt32_small)
  have n1: "num_or_undefined (Some (b1 * 65536)) = b1 * 65536"
    using assms(3,4) by (simp add: num_or_undefined_def ToInt32_small)
  have x1: "js_or (Some (c * 16777216)) (Some (b1 * 65536)) = c * 16777216 + b1 * 65536"
    unfolding js_or_def n0 n1 using assms(3,4) by (intro or_add_int [where k = 24]) simp_all
  let ?x1 = "c * 16777216 + b1 * 65536"
  have n2: "num_or_undefined (Some ?x1) = ?x1"
    using c assms(3,4) by (simp add: num_or_undefined_def ToInt32_small)
  have n3: "num_or_undefined (Some (b2 * 256)) = b2 * 256"
    using assms(5,6) by (simp add: num_or_undefined_def ToInt32_small)
  have d1: "(2::int) ^ 16 dvd ?x1"
  proof -
    have "?x1 = 2 ^ 16 * (c * 256 + b1)" by simp
    then show ?thesis by (simp only: dvd_triv_left)
  qed
  have x2: "js_or (Some ?x1) (Some (b2 * 256)) = ?x1 + b2 * 256"
    unfolding js_or_def n2 n3 using assms(5,6) d1 by (intro or_add_int [where k = 16]) simp_all
  let ?x2 = "?x1 + b2 * 256"
  have n4: "num_or_undefined (Some ?x2) = ?x2"
    using c assms(3-6) by (simp add: num_or_undefined_def ToInt32_small)
  have d2: "(2::int) ^ 8 dvd ?x2"
  proof -
    have "?x2 = 2 ^ 8 * (c * 65536 + b1 * 256 + b2)" by simp
    then show ?thesis by (simp only: dvd_triv_left)
  qed
  have x3: "js_or (Some ?x2) (Some b3) = ?x2 + b3"
    unfolding js_or_def n4 using assms(7,8) d2
    by (simp add: num_byte) (intro or_add_int [where k = 8], simp_all)
  show ?thesis
    unfolding s0 s1 s2 x1 x2 x3 by (simp add: c_def)
qed

lemma head_four_bytes:
  assumes "mt < 8"
  shows "read_head ((of_nat (mt * 32 + 26) :: byte) # c0 # c1 # c2 # c3 # rest) 0 =
         HeadArg (int mt)
           (js_or (Some (js_or (Some (js_or (Some (js_shl (Some (uint c0)) 24))
                                            (Some (js_shl (Some (uint c1)) 16))))
                               (Some (js_shl (Some (uint c2)) 8))))
                  (Some (uint c3))) 5"
  by (simp add: read_head_def Let_def byte_at_Cons_0 byte_at_Cons_pos
        initial_byte [OF assms(1), of 26] js_add_def del: of_nat_add of_nat_mult)

lemma head_four:
  assumes "mt < 8" "n < 2 ^ 32"
  shows "read_head (head_bytes mt FourBytes n @ rest) 0 =
         HeadArg (int mt) (if n < 2 ^ 31 then int n else int n - 2 ^ 32) 5"
proof -
  let ?b0 = "int (n div 16777216)" and ?b1 = "int (n div 65536 mod 256)"
  let ?b2 = "int (n div 256 mod 256)" and ?b3 = "int (n mod 256)"
  have u0: "uint (of_nat (n div 16777216) :: byte) = ?b0"
    using assms(2) by (intro uint_byte_of_nat) simp
  have u1: "uint (of_nat (n div 65536) :: byte) = ?b1" by (rule uint_byte_of_nat_mod)
  have u2: "uint (of_nat (n div 256) :: byte) = ?b2" by (rule uint_byte_of_nat_mod)
  have u3: "uint (of_nat n :: byte) = ?b3" by (rule uint_byte_of_nat_mod)
  have r0: "0 \<le> ?b0" "?b0 < 256" using assms(2) by simp_all
  have val: "js_or (Some (js_or (Some (js_or (Some (js_shl (Some ?b0) 24)) (Some (js_shl (Some ?b1) 16))))
                            (Some (js_shl (Some ?b2) 8))))
               (Some ?b3)
         = (if ?b0 < 128 then ?b0 else ?b0 - 256) * 16777216 + ?b1 * 65536 + ?b2 * 256 + ?b3"
    using r0 by (intro four_bytes_value) simp_all
  have m2: "n mod 65536 = 256 * (n div 256 mod 256) + n mod 256"
    using mod_mult2_eq [of n 256 256] by simp
  have m3: "n mod 16777216 = 65536 * (n div 65536 mod 256) + n mod 65536"
    using mod_mult2_eq [of n 65536 256] by simp
  have m4: "n = 16777216 * (n div 16777216) + n mod 16777216"
    by simp
  have dec: "n = n div 16777216 * 16777216 + n div 65536 mod 256 * 65536
                 + n div 256 mod 256 * 256 + n mod 256"
    using m2 m3 m4 by linarith
  have "int n = int (n div 16777216 * 16777216 + n div 65536 mod 256 * 65536
                 + n div 256 mod 256 * 256 + n mod 256)"
    using dec by simp
  then have deci: "int n = ?b0 * 16777216 + ?b1 * 65536 + ?b2 * 256 + ?b3"
    by (simp only: of_nat_add of_nat_mult of_nat_numeral)
  have "n < 128 * 16777216 \<longleftrightarrow> n div 16777216 < 128"
    by (simp add: div_less_iff_less_mult)
  then have sign: "n < 2 ^ 31 \<longleftrightarrow> ?b0 < 128" by simp
  have arg: "(if ?b0 < 128 then ?b0 else ?b0 - 256) * 16777216 + ?b1 * 65536 + ?b2 * 256 + ?b3
             = (if n < 2 ^ 31 then int n else int n - 2 ^ 32)"
  proof (cases "n < 2 ^ 31")
    case True
    with sign have "?b0 < 128" by simp
    with True show ?thesis by (simp only: if_True deci)
  next
    case False
    with sign have "\<not> ?b0 < 128" by simp
    with False show ?thesis by (simp only: if_False deci) (simp only: left_diff_distrib, simp)
  qed
  have "head_bytes mt FourBytes n @ rest =
        (of_nat (mt * 32 + 26) :: byte) # of_nat (n div 16777216) # of_nat (n div 65536)
          # of_nat (n div 256) # of_nat n # rest"
    by (simp only: head_bytes.simps be_bytes_4 append_Cons append_Nil)
  then show ?thesis
    by (simp only: head_four_bytes [OF assms(1)] u0 u1 u2 u3 val arg)
qed

lemma read_uint64_be:
  assumes "int (length pre) + int k < 2 ^ 53"
  shows "read_uint64 k (pre @ be_bytes k n @ rest) a (int (length pre)) =
         Inr (a * 256 ^ k + int (n mod 256 ^ k), int (length pre) + int k)"
  using assms
proof (induction k arbitrary: pre a)
  case 0
  show ?case by simp
next
  case (Suc k)
  let ?b = "of_nat (n div 256 ^ k) :: byte"
  let ?v = "int (n div 256 ^ k mod 256)"
  have u: "uint ?b = ?v" by (rule uint_byte_of_nat_mod)
  have b: "byte_at (pre @ be_bytes (Suc k) n @ rest) (int (length pre)) = Some ?v"
    by (simp add: byte_at_append_0 byte_at_Cons_0 u)
  have j: "js_add (int (length pre)) 1 = int (length (pre @ [?b]))"
    using Suc.prems by (subst js_add_nonneg) simp_all
  have orr: "push_bit 8 a OR ?v = a * 256 + ?v"
  proof -
    have "a * 2 ^ 8 OR ?v = a * 2 ^ 8 + ?v"
      by (intro or_add_int [where k = 8]) simp_all
    then show ?thesis by (simp add: push_bit_eq_mult)
  qed
  have ih: "read_uint64 k ((pre @ [?b]) @ be_bytes k n @ rest) (a * 256 + ?v)
              (int (length (pre @ [?b]))) =
            Inr ((a * 256 + ?v) * 256 ^ k + int (n mod 256 ^ k), int (length (pre @ [?b])) + int k)"
    using Suc.prems by (intro Suc.IH) simp
  have "n mod (256 ^ k * 256) = 256 ^ k * (n div 256 ^ k mod 256) + n mod 256 ^ k"
    by (rule mod_mult2_eq)
  then have "n mod 256 ^ Suc k = 256 ^ k * (n div 256 ^ k mod 256) + n mod 256 ^ k"
    by (simp add: mult.commute)
  then have "int (n mod 256 ^ Suc k) = 256 ^ k * ?v + int (n mod 256 ^ k)"
    by (simp only: of_nat_add of_nat_mult of_nat_power of_nat_numeral)
  then have val: "(a * 256 + ?v) * 256 ^ k + int (n mod 256 ^ k) = a * 256 ^ Suc k + int (n mod 256 ^ Suc k)"
    by (simp add: algebra_simps)
  show ?case
    unfolding read_uint64.simps b option.case orr j
    using ih val by simp
qed

lemma head_eight:
  assumes "mt < 8" "n < 2 ^ 64"
  shows "read_head (head_bytes mt EightBytes n @ rest) 0 = HeadArg (int mt) (int n) 9"
proof -
  let ?i = "of_nat (mt * 32 + 27) :: byte"
  have "read_uint64 8 ([?i] @ be_bytes 8 n @ rest) 0 (int (length [?i])) =
         Inr (0 * 256 ^ 8 + int (n mod 256 ^ 8), int (length [?i]) + int 8)"
    by (rule read_uint64_be) simp
  moreover have "n mod 256 ^ 8 = n" using assms(2) by simp
  ultimately have u: "read_uint64 8 (?i # be_bytes 8 n @ rest) 0 1 = Inr (int n, 9)"
    by simp
  show ?thesis
    by (simp add: read_head_def Let_def byte_at_Cons_0
        initial_byte [OF assms(1), of 27] u
        js_add_def del: of_nat_add of_nat_mult be_bytes.simps)
qed

lemma length_head_bytes: "0 < length (head_bytes mt f n) \<and> length (head_bytes mt f n) \<le> 9"
  by (cases f) (simp_all add: be_bytes_2 be_bytes_4 be_bytes_8)

lemma read_head_definite:
  assumes "mt < 8" "arg_fits f n" "int (length pre) + 9 < 2 ^ 53"
  shows "read_head (pre @ head_bytes mt f n @ rest) (int (length pre)) =
         HeadArg (int mt) (if f = FourBytes \<and> \<not> n < 2 ^ 31 then int n - 2 ^ 32 else int n)
           (int (length pre) + int (length (head_bytes mt f n)))"
proof -
  have "read_head (head_bytes mt f n @ rest) 0 =
         HeadArg (int mt) (if f = FourBytes \<and> \<not> n < 2 ^ 31 then int n - 2 ^ 32 else int n)
           (int (length (head_bytes mt f n)))"
  proof (cases f)
    case Direct
    with assms(2) have "n < 24" by simp
    from head_direct [OF assms(1) this, of rest] Direct show ?thesis by simp
  next
    case OneByte
    with assms(2) have "n < 256" by simp
    from head_one [OF assms(1) this, of rest] OneByte show ?thesis by simp
  next
    case TwoBytes
    with assms(2) have "n < 65536" by simp
    from head_two [OF assms(1) this, of rest] TwoBytes show ?thesis by (simp add: be_bytes_2)
  next
    case FourBytes
    with assms(2) have "n < 2 ^ 32" by simp
    from head_four [OF assms(1) this, of rest] FourBytes show ?thesis
      by (simp add: be_bytes_4)
  next
    case EightBytes
    with assms(2) have "n < 2 ^ 64" by simp
    from head_eight [OF assms(1) this, of rest] EightBytes show ?thesis
      by (simp add: be_bytes_8)
  qed
  then show ?thesis
    using read_head_shift [OF assms(3), of "head_bytes mt f n @ rest"]
    by (simp add: shift_head_def)
qed

lemma read_head_indefinite:
  assumes "mt < 8" "int (length pre) + 9 < 2 ^ 53"
  shows "read_head (pre @ (of_nat (mt * 32 + 31) :: byte) # rest) (int (length pre)) =
         HeadIndefinite (int mt) (int (length pre) + 1)"
proof -
  have "read_head ((of_nat (mt * 32 + 31) :: byte) # rest) 0 = HeadIndefinite (int mt) 1"
    by (simp add: read_head_def Let_def byte_at_Cons_0 initial_byte [OF assms(1), of 31]
        js_add_def del: of_nat_add of_nat_mult)
  then show ?thesis
    using read_head_shift [OF assms(2), of "(of_nat (mt * 32 + 31) :: byte) # rest"]
    by (simp add: shift_head_def)
qed

lemma initial_byte_not_break:
  assumes "mt < 8" "ai < 32" "mt * 32 + ai \<noteq> 255"
  shows "(of_nat (mt * 32 + ai) :: byte) \<noteq> 255"
proof
  assume "(of_nat (mt * 32 + ai) :: byte) = 255"
  then have "uint (of_nat (mt * 32 + ai) :: byte) = uint (255 :: byte)" by simp
  moreover have "mt * 32 + ai < 256" using assms(1,2) by simp
  ultimately have "int (mt * 32 + ai) = 255" by (simp only: uint_byte_of_nat) simp
  then have "mt * 32 + ai = 255" by linarith
  with assms(3) show False by simp
qed

lemma head_bytes_hd:
  assumes "mt < 8" "arg_fits f n"
  shows "head_bytes mt f n \<noteq> [] \<and> hd (head_bytes mt f n) \<noteq> 255"
proof (cases f)
  case Direct
  with assms(2) have "n < 24" by simp
  then have "n < 32" "mt * 32 + n \<noteq> 255" by presburger+
  with initial_byte_not_break [OF assms(1), of n] Direct show ?thesis
    by (simp del: of_nat_add of_nat_mult)
next
  case OneByte
  have "mt * 32 + 24 \<noteq> 255" by presburger
  with initial_byte_not_break [OF assms(1), of 24] OneByte show ?thesis
    by (simp del: of_nat_add of_nat_mult)
next
  case TwoBytes
  have "mt * 32 + 25 \<noteq> 255" by presburger
  with initial_byte_not_break [OF assms(1), of 25] TwoBytes show ?thesis
    by (simp del: of_nat_add of_nat_mult)
next
  case FourBytes
  have "mt * 32 + 26 \<noteq> 255" by presburger
  with initial_byte_not_break [OF assms(1), of 26] FourBytes show ?thesis
    by (simp del: of_nat_add of_nat_mult)
next
  case EightBytes
  have "mt * 32 + 27 \<noteq> 255" by presburger
  with initial_byte_not_break [OF assms(1), of 27] EightBytes show ?thesis
    by (simp del: of_nat_add of_nat_mult)
qed

lemma byte_at_hd:
  assumes "seg \<noteq> []"
  shows "byte_at (pre @ seg @ rest) (int (length pre)) = Some (uint (hd seg))"
proof -
  from assms obtain x xs where "seg = x # xs" by (cases seg) auto
  then show ?thesis by (simp add: byte_at_append_0 byte_at_Cons_0)
qed

lemma uint_not_break: "(b :: byte) \<noteq> 255 \<Longrightarrow> uint b \<noteq> 255"
proof
  assume ne: "b \<noteq> 255" and "uint b = 255"
  then have "word_of_int (uint b) = (word_of_int 255 :: byte)" by simp
  then have "b = 255" by (simp only: word_of_int_uint) simp
  with ne show False by simp
qed

lemma scansD:
  assumes "scans seg"
  shows "seg \<noteq> []" "hd seg \<noteq> 255"
    and "3 * length seg \<le> fuel \<Longrightarrow> int (length pre) + int (length seg) < 2 ^ 31 \<Longrightarrow>
         readValue fuel (pre @ seg @ rest) (int (length pre)) =
           Pos (int (length pre) + int (length seg))"
  using assms unfolding scans_def by blast+

lemma scans_first_byte:
  assumes "scans seg"
  shows "byte_at (pre @ seg @ rest) (int (length pre)) \<noteq> Some 255"
  using byte_at_hd [OF scansD(1) [OF assms], of pre rest] uint_not_break [OF scansD(2) [OF assms]]
  by simp

lemma until_break_segs:
  assumes "\<forall>seg \<in> set segs. scans seg"
    and "3 * length (concat segs) + 1 \<le> fuel"
    and "int (length pre) + int (length (concat segs)) + 1 < 2 ^ 31"
  shows "until_break fuel (pre @ concat segs @ 255 # rest) (int (length pre)) =
         Pos (int (length pre) + int (length (concat segs)))"
  using assms
proof (induction segs arbitrary: pre fuel)
  case Nil
  then obtain m where "fuel = Suc m" by (cases fuel) auto
  then show ?case by (simp add: byte_at_append_0 byte_at_Cons_0)
next
  case (Cons seg segs)
  from Cons.prems(1) have sc: "scans seg" and rest_sc: "\<forall>s \<in> set segs. scans s" by simp_all
  from scansD(1) [OF sc] have pos: "1 \<le> length seg" by (cases seg) auto
  from Cons.prems(2) obtain m where fuel: "fuel = Suc m" by (cases fuel) auto
  have len: "length (concat (seg # segs)) = length seg + length (concat segs)" by simp
  have f1: "3 * length seg \<le> m"
    using Cons.prems(2) pos unfolding fuel len by simp
  have f2: "3 * length (concat segs) + 1 \<le> m"
    using Cons.prems(2) pos unfolding fuel len by simp
  let ?tail = "concat segs @ 255 # rest"
  have bytes: "pre @ concat (seg # segs) @ 255 # rest = pre @ seg @ ?tail" by simp
  have first: "byte_at (pre @ seg @ ?tail) (int (length pre)) \<noteq> Some 255"
    using sc by (rule scans_first_byte)
  have item: "readValue m (pre @ seg @ ?tail) (int (length pre)) = Pos (int (length pre) + int (length seg))"
    using Cons.prems(3) f1 unfolding len by (intro scansD(3) [OF sc]) simp_all
  have "until_break m ((pre @ seg) @ concat segs @ 255 # rest) (int (length (pre @ seg))) =
        Pos (int (length (pre @ seg)) + int (length (concat segs)))"
    using rest_sc Cons.prems(3) f2 unfolding len by (intro Cons.IH) simp_all
  then have loop: "until_break m (pre @ seg @ ?tail) (int (length pre) + int (length seg)) =
        Pos (int (length pre) + int (length seg) + int (length (concat segs)))"
    by simp
  show ?case
    unfolding bytes fuel until_break.simps using first item loop by simp
qed

lemma read_items_segs:
  assumes "\<forall>seg \<in> set segs. scans seg"
    and "3 * length (concat segs) + 1 \<le> fuel"
    and "int (length pre) + int (length (concat segs)) < 2 ^ 31"
  shows "read_items fuel (pre @ concat segs @ rest) i (i + int (length segs)) (int (length pre)) =
         Pos (int (length pre) + int (length (concat segs)))"
  using assms
proof (induction segs arbitrary: pre fuel i)
  case Nil
  then obtain m where "fuel = Suc m" by (cases fuel) auto
  then show ?case by simp
next
  case (Cons seg segs)
  from Cons.prems(1) have sc: "scans seg" and rest_sc: "\<forall>s \<in> set segs. scans s" by simp_all
  from scansD(1) [OF sc] have pos: "1 \<le> length seg" by (cases seg) auto
  from Cons.prems(2) obtain m where fuel: "fuel = Suc m" by (cases fuel) auto
  have len: "length (concat (seg # segs)) = length seg + length (concat segs)" by simp
  have f1: "3 * length seg \<le> m"
    using Cons.prems(2) pos unfolding fuel len by simp
  have f2: "3 * length (concat segs) + 1 \<le> m"
    using Cons.prems(2) pos unfolding fuel len by simp
  let ?tail = "concat segs @ rest"
  have bytes: "pre @ concat (seg # segs) @ rest = pre @ seg @ ?tail" by simp
  have item: "readValue m (pre @ seg @ ?tail) (int (length pre)) = Pos (int (length pre) + int (length seg))"
    using Cons.prems(3) f1 unfolding len by (intro scansD(3) [OF sc]) simp_all
  have "read_items m ((pre @ seg) @ concat segs @ rest) (i + 1) (i + 1 + int (length segs))
          (int (length (pre @ seg))) =
        Pos (int (length (pre @ seg)) + int (length (concat segs)))"
    using rest_sc Cons.prems(3) f2 unfolding len by (intro Cons.IH) simp_all
  then have loop: "read_items m (pre @ seg @ ?tail) (i + 1) (i + int (length (seg # segs)))
          (int (length pre) + int (length seg)) =
        Pos (int (length pre) + int (length seg) + int (length (concat segs)))"
    by (simp add: add.assoc)
  have lt: "i < i + int (length (seg # segs))" by simp
  show ?case
    unfolding bytes fuel read_items.simps using lt item loop by simp
qed

lemma pairs_until_break_segs:
  assumes "\<forall>kv \<in> set kvs. scans (fst kv) \<and> scans (snd kv)"
    and "3 * length (concat (map (\<lambda>kv. fst kv @ snd kv) kvs)) + 1 \<le> fuel"
    and "int (length pre) + int (length (concat (map (\<lambda>kv. fst kv @ snd kv) kvs))) + 1 < 2 ^ 31"
  shows "pairs_until_break fuel (pre @ concat (map (\<lambda>kv. fst kv @ snd kv) kvs) @ 255 # rest)
           (int (length pre)) =
         Pos (int (length pre) + int (length (concat (map (\<lambda>kv. fst kv @ snd kv) kvs))))"
  using assms
proof (induction kvs arbitrary: pre fuel)
  case Nil
  then obtain m where "fuel = Suc m" by (cases fuel) auto
  then show ?case by (simp add: byte_at_append_0 byte_at_Cons_0)
next
  case (Cons kv kvs)
  let ?k = "fst kv" and ?v = "snd kv"
  let ?body = "concat (map (\<lambda>kv. fst kv @ snd kv) kvs)"
  from Cons.prems(1) have sk: "scans ?k" and sv: "scans ?v"
    and rest_sc: "\<forall>kv \<in> set kvs. scans (fst kv) \<and> scans (snd kv)" by simp_all
  from scansD(1) [OF sk] have pk: "1 \<le> length ?k" by (cases ?k) auto
  from scansD(1) [OF sv] have pv: "1 \<le> length ?v" by (cases ?v) auto
  from Cons.prems(2) obtain m where fuel: "fuel = Suc m" by (cases fuel) auto
  have len: "length (concat (map (\<lambda>kv. fst kv @ snd kv) (kv # kvs))) =
             length ?k + length ?v + length ?body" by simp
  have f1: "3 * length ?k \<le> m" using Cons.prems(2) pk pv unfolding fuel len by simp
  have f2: "3 * length ?v \<le> m" using Cons.prems(2) pk pv unfolding fuel len by simp
  have f3: "3 * length ?body + 1 \<le> m" using Cons.prems(2) pk pv unfolding fuel len by simp
  let ?tail = "?body @ 255 # rest"
  have bytes: "pre @ concat (map (\<lambda>kv. fst kv @ snd kv) (kv # kvs)) @ 255 # rest =
               pre @ ?k @ ?v @ ?tail" by simp
  have first: "byte_at (pre @ ?k @ ?v @ ?tail) (int (length pre)) \<noteq> Some 255"
    using sk by (rule scans_first_byte)
  have key: "readValue m (pre @ ?k @ ?v @ ?tail) (int (length pre)) =
             Pos (int (length pre) + int (length ?k))"
    using Cons.prems(3) f1 unfolding len by (intro scansD(3) [OF sk]) simp_all
  have "readValue m ((pre @ ?k) @ ?v @ ?tail) (int (length (pre @ ?k))) =
             Pos (int (length (pre @ ?k)) + int (length ?v))"
    using Cons.prems(3) f2 unfolding len by (intro scansD(3) [OF sv]) simp_all
  then have val: "readValue m (pre @ ?k @ ?v @ ?tail) (int (length pre) + int (length ?k)) =
             Pos (int (length pre) + int (length ?k) + int (length ?v))"
    by simp
  have "pairs_until_break m ((pre @ ?k @ ?v) @ ?body @ 255 # rest) (int (length (pre @ ?k @ ?v))) =
        Pos (int (length (pre @ ?k @ ?v)) + int (length ?body))"
    using rest_sc Cons.prems(3) f3 unfolding len by (intro Cons.IH) simp_all
  then have loop: "pairs_until_break m (pre @ ?k @ ?v @ ?tail)
          (int (length pre) + int (length ?k) + int (length ?v)) =
        Pos (int (length pre) + int (length ?k) + int (length ?v) + int (length ?body))"
    by (simp add: add.assoc)
  show ?case
    unfolding bytes fuel pairs_until_break.simps len using first key val loop by simp
qed

lemma read_pairs_segs:
  assumes "\<forall>kv \<in> set kvs. scans (fst kv) \<and> scans (snd kv)"
    and "3 * length (concat (map (\<lambda>kv. fst kv @ snd kv) kvs)) + 1 \<le> fuel"
    and "int (length pre) + int (length (concat (map (\<lambda>kv. fst kv @ snd kv) kvs))) < 2 ^ 31"
  shows "read_pairs fuel (pre @ concat (map (\<lambda>kv. fst kv @ snd kv) kvs) @ rest)
           i (i + int (length kvs)) (int (length pre)) =
         Pos (int (length pre) + int (length (concat (map (\<lambda>kv. fst kv @ snd kv) kvs))))"
  using assms
proof (induction kvs arbitrary: pre fuel i)
  case Nil
  then obtain m where "fuel = Suc m" by (cases fuel) auto
  then show ?case by simp
next
  case (Cons kv kvs)
  let ?k = "fst kv" and ?v = "snd kv"
  let ?body = "concat (map (\<lambda>kv. fst kv @ snd kv) kvs)"
  from Cons.prems(1) have sk: "scans ?k" and sv: "scans ?v"
    and rest_sc: "\<forall>kv \<in> set kvs. scans (fst kv) \<and> scans (snd kv)" by simp_all
  from scansD(1) [OF sk] have pk: "1 \<le> length ?k" by (cases ?k) auto
  from scansD(1) [OF sv] have pv: "1 \<le> length ?v" by (cases ?v) auto
  from Cons.prems(2) obtain m where fuel: "fuel = Suc m" by (cases fuel) auto
  have len: "length (concat (map (\<lambda>kv. fst kv @ snd kv) (kv # kvs))) =
             length ?k + length ?v + length ?body" by simp
  have f1: "3 * length ?k \<le> m" using Cons.prems(2) pk pv unfolding fuel len by simp
  have f2: "3 * length ?v \<le> m" using Cons.prems(2) pk pv unfolding fuel len by simp
  have f3: "3 * length ?body + 1 \<le> m" using Cons.prems(2) pk pv unfolding fuel len by simp
  let ?tail = "?body @ rest"
  have bytes: "pre @ concat (map (\<lambda>kv. fst kv @ snd kv) (kv # kvs)) @ rest =
               pre @ ?k @ ?v @ ?tail" by simp
  have key: "readValue m (pre @ ?k @ ?v @ ?tail) (int (length pre)) =
             Pos (int (length pre) + int (length ?k))"
    using Cons.prems(3) f1 unfolding len by (intro scansD(3) [OF sk]) simp_all
  have "readValue m ((pre @ ?k) @ ?v @ ?tail) (int (length (pre @ ?k))) =
             Pos (int (length (pre @ ?k)) + int (length ?v))"
    using Cons.prems(3) f2 unfolding len by (intro scansD(3) [OF sv]) simp_all
  then have val: "readValue m (pre @ ?k @ ?v @ ?tail) (int (length pre) + int (length ?k)) =
             Pos (int (length pre) + int (length ?k) + int (length ?v))"
    by simp
  have "read_pairs m ((pre @ ?k @ ?v) @ ?body @ rest) (i + 1) (i + 1 + int (length kvs))
          (int (length (pre @ ?k @ ?v))) =
        Pos (int (length (pre @ ?k @ ?v)) + int (length ?body))"
    using rest_sc Cons.prems(3) f3 unfolding len by (intro Cons.IH) simp_all
  then have loop: "read_pairs m (pre @ ?k @ ?v @ ?tail) (i + 1) (i + int (length (kv # kvs)))
          (int (length pre) + int (length ?k) + int (length ?v)) =
        Pos (int (length pre) + int (length ?k) + int (length ?v) + int (length ?body))"
    by (simp add: add.assoc)
  have lt: "i < i + int (length (kv # kvs))" by simp
  show ?case
    unfolding bytes fuel read_pairs.simps len using lt key val loop by simp
qed

lemma readValue_definite:
  assumes "mt < 8" "arg_fits f n"
    and "int (length pre) + int (length (head_bytes mt f n)) < 2 ^ 31"
  shows "readValue (Suc m) (pre @ head_bytes mt f n @ rest) (int (length pre)) =
         (let a = (if f = FourBytes \<and> \<not> n < 2 ^ 31 then int n - 2 ^ 32 else int n);
              p = int (length pre) + int (length (head_bytes mt f n));
              bytes = pre @ head_bytes mt f n @ rest
          in if mt = 0 \<or> mt = 1 \<or> mt = 7 then Pos p
             else if mt = 2 \<or> mt = 3 then Pos (js_add p (Number_of_BigInt a))
             else if mt = 4 then read_items m bytes 0 a p
             else if mt = 5 then read_pairs m bytes 0 a p
             else readValue m bytes p)"
proof -
  have b: "int (length pre) + 9 < 2 ^ 53" using assms(3) by simp
  have "0 < int (length (head_bytes mt f n))"
    using length_head_bytes [of mt f n] by simp
  then have inb: "\<not> int (length pre) \<ge> int (length (pre @ head_bytes mt f n @ rest))"
    unfolding length_append of_nat_add by linarith
  have mt: "mt = 0 \<or> mt = 1 \<or> mt = 2 \<or> mt = 3 \<or> mt = 4 \<or> mt = 5 \<or> mt = 6 \<or> mt = 7"
    using assms(1) by arith
  show ?thesis
    unfolding readValue.simps read_head_definite [OF assms(1,2) b] head.case Let_def
    using inb mt by auto
qed

lemma scansI:
  assumes "seg \<noteq> []" "hd seg \<noteq> 255"
    and "\<And>pre rest m. 3 * length seg \<le> Suc m \<Longrightarrow> int (length pre) + int (length seg) < 2 ^ 31 \<Longrightarrow>
         readValue (Suc m) (pre @ seg @ rest) (int (length pre)) =
           Pos (int (length pre) + int (length seg))"
  shows "scans seg"
  unfolding scans_def
proof (intro conjI allI impI)
  fix pre rest :: "byte list" and fuel :: nat
  assume f: "3 * length seg \<le> fuel" and b: "int (length pre) + int (length seg) < 2 ^ 31"
  from assms(1) have "1 \<le> length seg" by (cases seg) auto
  with f obtain m where "fuel = Suc m" by (cases fuel) auto
  with assms(3) [of m pre rest] f b
  show "readValue fuel (pre @ seg @ rest) (int (length pre)) = Pos (int (length pre) + int (length seg))"
    by simp
qed (use assms in simp_all)

lemma head_bytes_len1: "1 \<le> length (head_bytes mt f n)"
  by (cases f) simp_all

lemma scans_leaf:
  assumes "mt = 0 \<or> mt = 1 \<or> mt = 7" "arg_fits f n"
  shows "scans (head_bytes mt f n)"
proof (rule scansI)
  have mt: "mt < 8" using assms(1) by auto
  show "head_bytes mt f n \<noteq> []" "hd (head_bytes mt f n) \<noteq> 255"
    using head_bytes_hd [OF mt assms(2)] by simp_all
  fix pre rest :: "byte list" and m :: nat
  assume "int (length pre) + int (length (head_bytes mt f n)) < 2 ^ 31"
  from readValue_definite [OF mt assms(2) this, of m rest] assms(1)
  show "readValue (Suc m) (pre @ head_bytes mt f n @ rest) (int (length pre)) =
        Pos (int (length pre) + int (length (head_bytes mt f n)))"
    by (auto simp: Let_def)
qed

lemma scans_string:
  assumes "mt = 2 \<or> mt = 3" "arg_fits f (length bs)"
  shows "scans (head_bytes mt f (length bs) @ bs)"
proof (rule scansI)
  let ?h = "head_bytes mt f (length bs)"
  have mt: "mt < 8" using assms(1) by auto
  show "?h @ bs \<noteq> []" "hd (?h @ bs) \<noteq> 255"
    using head_bytes_hd [OF mt assms(2)] by simp_all
  fix pre rest :: "byte list" and m :: nat
  assume b: "int (length pre) + int (length (?h @ bs)) < 2 ^ 31"
  then have b1: "int (length pre) + int (length ?h) < 2 ^ 31" by simp
  have small: "length bs < 2 ^ 31" using b by simp
  have "readValue (Suc m) (pre @ ?h @ (bs @ rest)) (int (length pre)) =
        Pos (js_add (int (length pre) + int (length ?h)) (Number_of_BigInt (int (length bs))))"
    using readValue_definite [OF mt assms(2) b1, of m "bs @ rest"] assms(1) small
    by (auto simp: Let_def)
  moreover have "Number_of_BigInt (int (length bs)) = int (length bs)"
    using small unfolding Number_of_BigInt_def by (intro round_double_small) simp
  moreover have "js_add (int (length pre) + int (length ?h)) (int (length bs)) =
                 int (length pre) + int (length ?h) + int (length bs)"
    using b by (intro js_add_nonneg) simp_all
  ultimately show "readValue (Suc m) (pre @ (?h @ bs) @ rest) (int (length pre)) =
        Pos (int (length pre) + int (length (?h @ bs)))"
    by simp
qed

lemma length_le_concat:
  assumes "\<forall>seg \<in> set segs. seg \<noteq> []"
  shows "length segs \<le> length (concat segs)"
  using assms
proof (induction segs)
  case Nil
  show ?case by simp
next
  case (Cons seg segs)
  then have "1 \<le> length seg" by (cases seg) auto
  with Cons show ?case by simp
qed

lemma scans_array:
  assumes "\<forall>seg \<in> set segs. scans seg" "arg_fits f (length segs)"
  shows "scans (head_bytes 4 f (length segs) @ concat segs)"
proof (rule scansI)
  let ?h = "head_bytes 4 f (length segs)"
  have mt: "(4::nat) < 8" by simp
  show "?h @ concat segs \<noteq> []" "hd (?h @ concat segs) \<noteq> 255"
    using head_bytes_hd [OF mt assms(2)] by simp_all
  fix pre rest :: "byte list" and m :: nat
  assume f: "3 * length (?h @ concat segs) \<le> Suc m"
    and b: "int (length pre) + int (length (?h @ concat segs)) < 2 ^ 31"
  then have b1: "int (length pre) + int (length ?h) < 2 ^ 31" by simp
  have "\<forall>seg \<in> set segs. seg \<noteq> []" using assms(1) scansD(1) by blast
  then have "length segs \<le> length (concat segs)" by (rule length_le_concat)
  with b have small: "length segs < 2 ^ 31" by simp
  have hpos: "1 \<le> length ?h" by (rule head_bytes_len1)
  have f': "3 * length (concat segs) + 1 \<le> m" using f hpos by simp
  have "readValue (Suc m) (pre @ ?h @ (concat segs @ rest)) (int (length pre)) =
        read_items m (pre @ ?h @ (concat segs @ rest)) 0 (int (length segs))
          (int (length pre) + int (length ?h))"
    using readValue_definite [OF mt assms(2) b1, of m "concat segs @ rest"] small
    by (auto simp: Let_def)
  moreover have "read_items m ((pre @ ?h) @ concat segs @ rest) 0 (0 + int (length segs))
          (int (length (pre @ ?h))) = Pos (int (length (pre @ ?h)) + int (length (concat segs)))"
    using assms(1) f' b by (intro read_items_segs) simp_all
  ultimately show "readValue (Suc m) (pre @ (?h @ concat segs) @ rest) (int (length pre)) =
        Pos (int (length pre) + int (length (?h @ concat segs)))"
    by simp
qed

lemma scans_indefinite:
  assumes "mt = 2 \<or> mt = 3 \<or> mt = 4" "\<forall>seg \<in> set segs. scans seg"
  shows "scans ((of_nat (mt * 32 + 31) :: byte) # concat segs @ [255])"
proof (rule scansI)
  let ?b = "of_nat (mt * 32 + 31) :: byte"
  have mt: "mt < 8" using assms(1) by auto
  have "mt * 32 + 31 \<noteq> 255" using assms(1) by auto
  then have "?b \<noteq> 255" using mt by (intro initial_byte_not_break) simp_all
  then show "?b # concat segs @ [255] \<noteq> []" "hd (?b # concat segs @ [255]) \<noteq> 255"
    by simp_all
  fix pre rest :: "byte list" and m :: nat
  assume f: "3 * length (?b # concat segs @ [255]) \<le> Suc m"
    and b: "int (length pre) + int (length (?b # concat segs @ [255])) < 2 ^ 31"
  let ?bytes = "pre @ (?b # concat segs @ [255]) @ rest"
  have bytes: "?bytes = pre @ ?b # (concat segs @ 255 # rest)" by simp
  have bytes': "?bytes = (pre @ [?b]) @ concat segs @ 255 # rest" by simp
  have b53: "int (length pre) + 9 < 2 ^ 53" using b by simp
  have head: "read_head ?bytes (int (length pre)) = HeadIndefinite (int mt) (int (length pre) + 1)"
    unfolding bytes using mt b53 by (rule read_head_indefinite)
  have inb: "\<not> int (length pre) \<ge> int (length ?bytes)" by simp
  have f': "3 * length (concat segs) + 1 \<le> m" using f by simp
  have "until_break m ((pre @ [?b]) @ concat segs @ 255 # rest) (int (length (pre @ [?b]))) =
        Pos (int (length (pre @ [?b])) + int (length (concat segs)))"
    using assms(2) f' b by (intro until_break_segs) simp_all
  then have loop: "until_break m ?bytes (int (length pre) + 1) =
        Pos (int (length pre) + 1 + int (length (concat segs)))"
    unfolding bytes' by (simp add: add_ac)
  have j: "js_add (int (length pre) + 1 + int (length (concat segs))) 1 =
           int (length pre) + 1 + int (length (concat segs)) + 1"
    using b by (intro js_add_nonneg) simp_all
  have "readValue (Suc m) ?bytes (int (length pre)) =
        Pos (int (length pre) + 1 + int (length (concat segs)) + 1)"
    unfolding readValue.simps head head.case using inb assms(1) loop j
    by (auto simp: skip_break_def)
  then show "readValue (Suc m) ?bytes (int (length pre)) =
        Pos (int (length pre) + int (length (?b # concat segs @ [255])))"
    by simp
qed

lemma length_le_concat_pairs:
  assumes "\<forall>kv \<in> set kvs. fst kv \<noteq> [] \<and> snd kv \<noteq> []"
  shows "length kvs \<le> length (concat (map (\<lambda>kv. fst kv @ snd kv) kvs))"
  using assms
proof (induction kvs)
  case Nil
  show ?case by simp
next
  case (Cons kv kvs)
  then have "1 \<le> length (fst kv)" by (cases "fst kv") auto
  with Cons show ?case by simp
qed

lemma scans_map:
  assumes "\<forall>kv \<in> set kvs. scans (fst kv) \<and> scans (snd kv)" "arg_fits f (length kvs)"
  shows "scans (head_bytes 5 f (length kvs) @ concat (map (\<lambda>kv. fst kv @ snd kv) kvs))"
proof (rule scansI)
  let ?h = "head_bytes 5 f (length kvs)"
  let ?body = "concat (map (\<lambda>kv. fst kv @ snd kv) kvs)"
  have mt: "(5::nat) < 8" by simp
  show "?h @ ?body \<noteq> []" "hd (?h @ ?body) \<noteq> 255"
    using head_bytes_hd [OF mt assms(2)] by simp_all
  fix pre rest :: "byte list" and m :: nat
  assume f: "3 * length (?h @ ?body) \<le> Suc m"
    and b: "int (length pre) + int (length (?h @ ?body)) < 2 ^ 31"
  then have b1: "int (length pre) + int (length ?h) < 2 ^ 31" by simp
  have "\<forall>kv \<in> set kvs. fst kv \<noteq> [] \<and> snd kv \<noteq> []" using assms(1) scansD(1) by blast
  then have "length kvs \<le> length ?body" by (rule length_le_concat_pairs)
  with b have small: "length kvs < 2 ^ 31" by simp
  have hpos: "1 \<le> length ?h" by (rule head_bytes_len1)
  have f': "3 * length ?body + 1 \<le> m" using f hpos by simp
  have "readValue (Suc m) (pre @ ?h @ (?body @ rest)) (int (length pre)) =
        read_pairs m (pre @ ?h @ (?body @ rest)) 0 (int (length kvs))
          (int (length pre) + int (length ?h))"
    using readValue_definite [OF mt assms(2) b1, of m "?body @ rest"] small
    by (auto simp: Let_def)
  moreover have "read_pairs m ((pre @ ?h) @ ?body @ rest) 0 (0 + int (length kvs))
          (int (length (pre @ ?h))) = Pos (int (length (pre @ ?h)) + int (length ?body))"
    using assms(1) f' b by (intro read_pairs_segs) simp_all
  ultimately show "readValue (Suc m) (pre @ (?h @ ?body) @ rest) (int (length pre)) =
        Pos (int (length pre) + int (length (?h @ ?body)))"
    by simp
qed

lemma scans_map_indefinite:
  assumes "\<forall>kv \<in> set kvs. scans (fst kv) \<and> scans (snd kv)"
  shows "scans (0xbf # concat (map (\<lambda>kv. fst kv @ snd kv) kvs) @ [255])"
proof (rule scansI)
  let ?b = "0xbf :: byte"
  let ?body = "concat (map (\<lambda>kv. fst kv @ snd kv) kvs)"
  have beq: "?b = of_nat (5 * 32 + 31)" by simp
  show "?b # ?body @ [255] \<noteq> []" "hd (?b # ?body @ [255]) \<noteq> 255"
    by simp_all
  fix pre rest :: "byte list" and m :: nat
  assume f: "3 * length (?b # ?body @ [255]) \<le> Suc m"
    and b: "int (length pre) + int (length (?b # ?body @ [255])) < 2 ^ 31"
  let ?bytes = "pre @ (?b # ?body @ [255]) @ rest"
  have bytes: "?bytes = pre @ of_nat (5 * 32 + 31) # (?body @ 255 # rest)"
    by (simp only: beq [symmetric]) simp
  have bytes': "?bytes = (pre @ [?b]) @ ?body @ 255 # rest" by simp
  have b53: "int (length pre) + 9 < 2 ^ 53" using b by simp
  have head: "read_head ?bytes (int (length pre)) = HeadIndefinite (int 5) (int (length pre) + 1)"
    unfolding bytes using b53 by (intro read_head_indefinite) simp_all
  have inb: "\<not> int (length pre) \<ge> int (length ?bytes)" by simp
  have f': "3 * length ?body + 1 \<le> m" using f by simp
  have "pairs_until_break m ((pre @ [?b]) @ ?body @ 255 # rest) (int (length (pre @ [?b]))) =
        Pos (int (length (pre @ [?b])) + int (length ?body))"
    using assms f' b by (intro pairs_until_break_segs) simp_all
  then have loop: "pairs_until_break m ?bytes (int (length pre) + 1) =
        Pos (int (length pre) + 1 + int (length ?body))"
    unfolding bytes' by (simp add: add_ac)
  have j: "js_add (int (length pre) + 1 + int (length ?body)) 1 =
           int (length pre) + 1 + int (length ?body) + 1"
    using b by (intro js_add_nonneg) simp_all
  have "readValue (Suc m) ?bytes (int (length pre)) =
        Pos (int (length pre) + 1 + int (length ?body) + 1)"
    unfolding readValue.simps head head.case using inb loop j
    by (auto simp: skip_break_def)
  then show "readValue (Suc m) ?bytes (int (length pre)) =
        Pos (int (length pre) + int (length (?b # ?body @ [255])))"
    by simp
qed

lemma scans_tag:
  assumes "scans seg" "arg_fits f t"
  shows "scans (head_bytes 6 f t @ seg)"
proof (rule scansI)
  let ?h = "head_bytes 6 f t"
  have mt: "(6::nat) < 8" by simp
  show "?h @ seg \<noteq> []" "hd (?h @ seg) \<noteq> 255"
    using head_bytes_hd [OF mt assms(2)] by simp_all
  fix pre rest :: "byte list" and m :: nat
  assume f: "3 * length (?h @ seg) \<le> Suc m"
    and b: "int (length pre) + int (length (?h @ seg)) < 2 ^ 31"
  then have b1: "int (length pre) + int (length ?h) < 2 ^ 31" by simp
  have hpos: "1 \<le> length ?h" by (rule head_bytes_len1)
  have f': "3 * length seg \<le> m" using f hpos by simp
  have "readValue (Suc m) (pre @ ?h @ (seg @ rest)) (int (length pre)) =
        readValue m (pre @ ?h @ (seg @ rest)) (int (length pre) + int (length ?h))"
    using readValue_definite [OF mt assms(2) b1, of m "seg @ rest"]
    by (auto simp: Let_def)
  moreover have "readValue m ((pre @ ?h) @ seg @ rest) (int (length (pre @ ?h))) =
        Pos (int (length (pre @ ?h)) + int (length seg))"
    using f' b by (intro scansD(3) [OF assms(1)]) simp_all
  ultimately show "readValue (Suc m) (pre @ (?h @ seg) @ rest) (int (length pre)) =
        Pos (int (length pre) + int (length (?h @ seg)))"
    by simp
qed

lemma encode_pair_unfold:
  "(\<lambda>(k, v). encode k @ encode v) = (\<lambda>kv. encode (fst kv) @ encode (snd kv))"
  by (simp add: fun_eq_iff case_prod_beta)

lemma scans_encode: "well_formed v \<Longrightarrow> scans (encode v)"
proof (induction v)
  case (CUInt f n)
  then show ?case using scans_leaf [of 0 f n] by simp
next
  case (CNInt f n)
  then show ?case using scans_leaf [of 1 f n] by simp
next
  case (CBytes f bs)
  then show ?case using scans_string [of 2 f bs] by simp
next
  case (CText f bs)
  then show ?case using scans_string [of 3 f bs] by simp
next
  case (CBytesIndef chunks)
  let ?segs = "map (\<lambda>(f, bs). head_bytes 2 f (length bs) @ bs) chunks"
  have "\<forall>seg \<in> set ?segs. scans seg"
    using CBytesIndef scans_string [of 2] by (auto simp: list_all_iff)
  from scans_indefinite [of 2, OF _ this] show ?case by simp
next
  case (CTextIndef chunks)
  let ?segs = "map (\<lambda>(f, bs). head_bytes 3 f (length bs) @ bs) chunks"
  have "\<forall>seg \<in> set ?segs. scans seg"
    using CTextIndef scans_string [of 3] by (auto simp: list_all_iff)
  from scans_indefinite [of 3, OF _ this] show ?case by simp
next
  case (CArray f xs)
  have "\<forall>seg \<in> set (map encode xs). scans seg"
    using CArray by (auto simp: list_all_iff)
  from scans_array [OF this, of f] CArray.prems show ?case by simp
next
  case (CArrayIndef xs)
  have "\<forall>seg \<in> set (map encode xs). scans seg"
    using CArrayIndef by (auto simp: list_all_iff)
  from scans_indefinite [of 4, OF _ this] show ?case by simp
next
  case (CMap f kvs)
  let ?ps = "map (\<lambda>(k, v). (encode k, encode v)) kvs"
  have "\<forall>kv \<in> set ?ps. scans (fst kv) \<and> scans (snd kv)"
    using CMap by (fastforce simp: list_all_iff)
  from scans_map [OF this, of f] CMap.prems show ?case
    by (simp add: encode_pair_unfold case_prod_beta comp_def)
next
  case (CMapIndef kvs)
  let ?ps = "map (\<lambda>(k, v). (encode k, encode v)) kvs"
  have "\<forall>kv \<in> set ?ps. scans (fst kv) \<and> scans (snd kv)"
    using CMapIndef by (fastforce simp: list_all_iff)
  from scans_map_indefinite [OF this] show ?case
    by (simp add: encode_pair_unfold case_prod_beta comp_def)
next
  case (CTag f t x)
  then show ?case using scans_tag [of "encode x" f t] by simp
next
  case (CSimple f n)
  then show ?case using scans_leaf [of 7 f n] by simp
qed

lemma js_slice_prefix: "js_slice (xs @ ys) 0 (int (length xs)) = xs"
  by (simp add: js_slice_def clamp_index_def Let_def)

lemma js_slice_from_suffix: "js_slice_from (xs @ ys) (int (length xs)) = ys"
  by (simp add: js_slice_from_def js_slice_def clamp_index_def Let_def)

text \<open>
  Apart from the long headers, the scan is right: for a well-formed header of fewer than
  \<open>2 ^ 31\<close> bytes, with strings, arrays and maps of definite or indefinite length,
  and any bytes after it, the scan returns the length of the header's encoding, given
  fuel of three times that length, and the two slices are the two encodings. The two
  lemmas are about the model, which does not bound the nesting of the calls: a header
  nested deeper than the engine's call stack allows makes the code throw
  \<open>RangeError\<close> and \<open>decodeFirehoseFrame\<close> return \<open>null\<close>.
\<close>

lemma findCborBoundary_short_header:
  assumes "well_formed header" "length (encode header) < 2 ^ 31"
    and "3 * length (encode header) \<le> fuel"
  shows "findCborBoundary fuel (encode header @ rest) = Pos (int (length (encode header)))
       \<and> js_slice (encode header @ rest) 0 (int (length (encode header))) = encode header
       \<and> js_slice_from (encode header @ rest) (int (length (encode header))) = rest"
proof -
  have "scans (encode header)" using assms(1) by (rule scans_encode)
  from scansD(3) [OF this, of fuel "[]" rest] assms(2,3)
  have "findCborBoundary fuel (encode header @ rest) = Pos (int (length (encode header)))"
    by (simp add: findCborBoundary_def)
  then show ?thesis by (simp add: js_slice_prefix js_slice_from_suffix)
qed

lemma decodeFirehoseFrame_short_header:
  assumes "well_formed header" "length (encode header) < 2 ^ 31"
    and "3 * length (encode header) \<le> fuel"
  shows "decodeFirehoseFrame fuel decode header_op header_t (encode header @ encode body) =
         Some (decode_parts decode header_op header_t (encode header) (encode body))"
  using findCborBoundary_short_header [OF assms, of "encode body"]
  by (simp add: decodeFirehoseFrame_def)

text \<open>The header of a commit frame has 15 bytes, and the scan stops after them.\<close>

lemma commit_header_bytes:
  "encode commit_header =
     [0xa2, 0x62, 0x6f, 0x70, 0x01, 0x61, 0x74, 0x67, 0x23, 0x63, 0x6f, 0x6d, 0x6d, 0x69, 0x74]"
  by (simp add: commit_header_def)

lemma commit_header_boundary:
  "findCborBoundary 45 (encode commit_header @ rest) = Pos 15"
proof -
  have "well_formed commit_header" by (simp add: commit_header_def)
  moreover have "length (encode commit_header) = 15" by (simp add: commit_header_bytes)
  ultimately show ?thesis
    using findCborBoundary_short_header [of commit_header 45 rest] by simp
qed

end
